theory Spec2Isabelle
  imports Complex_Main "HOL-Library.List_Lexorder"
begin

section \<open>Text: code points and the character database\<close>

text \<open>
  A Python \<open>str\<close> is a sequence of Unicode code points; a code point is modelled as a
  natural number and a string as a list of them. A value that may be a string or
  \<open>None\<close> (a missing transcription) is an option.
\<close>

type_synonym uchar = nat
type_synonym ustring = "uchar list"
type_synonym pyval = "ustring option"

definition ustr :: "string \<Rightarrow> ustring" where
  "ustr s = map of_char s"

text \<open>
  The analysis asks the interpreter's character database four questions:
  \<open>str.isalpha\<close> of one character, whether a character is white space (the class
  \<open>\s\<close> of \<open>re\<close> and the characters removed by \<open>str.strip\<close>), whether
  \<open>unicodedata.category\<close> of a character starts with \<open>M\<close>, and \<open>str.lower\<close> of a
  string. These tables belong to the interpreter, not to the repository, so every
  function below takes them as the parameter \<open>U\<close>.
\<close>

record ucd =
  isalpha :: "uchar \<Rightarrow> bool"
  isspace :: "uchar \<Rightarrow> bool"
  category_M :: "uchar \<Rightarrow> bool"
  lower :: "ustring \<Rightarrow> ustring"

text \<open>
  \<open>basic_ucd\<close> is the database restricted to ASCII and the block of combining
  diacritical marks (U+0300 to U+036F, all of category Mn). On text made of these
  characters it answers as CPython does; it is used for the closed examples only.
\<close>

definition ascii_lower :: "uchar \<Rightarrow> uchar" where
  "ascii_lower c = (if 65 \<le> c \<and> c \<le> 90 then c + 32 else c)"

definition basic_ucd :: ucd where
  "basic_ucd = \<lparr>
     isalpha = (\<lambda>c. (65 \<le> c \<and> c \<le> 90) \<or> (97 \<le> c \<and> c \<le> 122)),
     isspace = (\<lambda>c. (9 \<le> c \<and> c \<le> 13) \<or> (28 \<le> c \<and> c \<le> 32)),
     category_M = (\<lambda>c. 768 \<le> c \<and> c \<le> 879),
     lower = map ascii_lower \<rparr>"

section \<open>Form Normalizer: \<open>normalize_form\<close>\<close>

text \<open>
  \<open>re.sub(r'\([^)]*\)', '', text)\<close>: scanning from the left, an opening parenthesis
  (40) that has a closing one (41) somewhere after it is removed together with
  everything up to the first closing one; any other character is kept.
\<close>

function sub_parens :: "ustring \<Rightarrow> ustring" where
  "sub_parens [] = []"
| "sub_parens (c # cs) =
     (if c = 40 \<and> 41 \<in> set cs
      then sub_parens (tl (dropWhile (\<lambda>x. x \<noteq> 41) cs))
      else c # sub_parens cs)"
  by pat_completeness auto
termination
proof (relation "measure length")
  fix c :: uchar and cs :: ustring
  have "length (tl (dropWhile (\<lambda>x. x \<noteq> 41) cs)) \<le> length cs"
    using length_dropWhile_le [of "\<lambda>x. x \<noteq> 41" cs] by simp
  then show "(tl (dropWhile (\<lambda>x. x \<noteq> 41) cs), c # cs) \<in> measure length"
    by simp
qed simp_all

text \<open>\<open>re.sub(r'\*', '', text)\<close>: every asterisk (42) is removed.\<close>

definition sub_asterisk :: "ustring \<Rightarrow> ustring" where
  "sub_asterisk text = filter (\<lambda>c. c \<noteq> 42) text"

text \<open>
  \<open>re.sub(r'\s+', ' ', text)\<close>: every maximal run of white space becomes one space
  (32).
\<close>

function sub_spaces :: "ucd \<Rightarrow> ustring \<Rightarrow> ustring" where
  "sub_spaces U [] = []"
| "sub_spaces U (c # cs) =
     (if isspace U c
      then 32 # sub_spaces U (dropWhile (isspace U) cs)
      else c # sub_spaces U cs)"
  by pat_completeness auto
termination
proof (relation "measure (\<lambda>(U, s). length s)")
  fix U :: ucd and c :: uchar and cs :: ustring
  show "((U, dropWhile (isspace U) cs), (U, c # cs)) \<in> measure (\<lambda>(U, s). length s)"
    using length_dropWhile_le [of "isspace U" cs] by simp
qed simp_all

text \<open>\<open>str.strip()\<close>: white space is removed from both ends.\<close>

definition strip :: "ucd \<Rightarrow> ustring \<Rightarrow> ustring" where
  "strip U text = rev (dropWhile (isspace U) (rev (dropWhile (isspace U) text)))"

text \<open>
  \<open>normalize_form\<close>: \<open>not text\<close> holds for \<open>None\<close> and for the empty string.
\<close>

definition normalize_form :: "ucd \<Rightarrow> pyval \<Rightarrow> ustring" where
  "normalize_form U text =
     (case text of
        None \<Rightarrow> []
      | Some t \<Rightarrow>
          if t = [] then []
          else strip U (sub_spaces U (sub_asterisk (sub_parens t))))"

section \<open>Segmenter: \<open>extract_phonemes\<close>\<close>

text \<open>
  The digraph table, in the order of the source: ts tz ch dz gu qu hu ng nh xh nd mb
  nh th ph kh tx dj nz ny, where the n of the ninth entry is the n with tilde, U+00F1.
\<close>

definition digraphs :: "ustring list" where
  "digraphs =
     [ustr ''ts'', ustr ''tz'', ustr ''ch'', ustr ''dz'', ustr ''gu'', ustr ''qu'',
      ustr ''hu'', ustr ''ng'', [241, 104], ustr ''xh'', ustr ''nd'', ustr ''mb'',
      ustr ''nh'', ustr ''th'', ustr ''ph'', ustr ''kh'', ustr ''tx'', ustr ''dj'',
      ustr ''nz'', ustr ''ny'']"

text \<open>The characters kept although they need not be letters: \<open>'\<close>, U+0294, U+02BC, U+02C0.\<close>

definition glottals :: "uchar list" where
  "glottals = [39, 660, 700, 704]"

text \<open>The slice \<open>text[a:b]\<close> for \<open>0 \<le> a\<close>, \<open>0 \<le> b\<close>; it never raises.\<close>

definition slice :: "'a list \<Rightarrow> nat \<Rightarrow> nat \<Rightarrow> 'a list" where
  "slice text a b = take (b - a) (drop a text)"

text \<open>
  The inner loop
  \<open>while end < len(text) and unicodedata.category(text[end]).startswith('M'): end += 1\<close>.
\<close>

function absorb_marks :: "ucd \<Rightarrow> ustring \<Rightarrow> nat \<Rightarrow> nat" where
  "absorb_marks U text e =
     (if e < length text \<and> category_M U (text ! e)
      then absorb_marks U text (e + 1) else e)"
  by pat_completeness auto
termination
  by (relation "measure (\<lambda>(U, text, e). length text - e)") auto

text \<open>
  The \<open>for dg in digraphs\<close> loop stops at the first entry of the table that equals the
  lower-cased slice of its own length.
\<close>

definition find_digraph :: "ucd \<Rightarrow> ustring \<Rightarrow> nat \<Rightarrow> ustring option" where
  "find_digraph U text i =
     find (\<lambda>dg. lower U (slice text i (i + length dg)) = dg) digraphs"

text \<open>
  One pass through the body of \<open>while i < len(text)\<close>, entered with \<open>i < len(text)\<close>:
  the new cursor and the new list of segments.
\<close>

definition seg_step :: "ucd \<Rightarrow> ustring \<Rightarrow> nat \<Rightarrow> ustring list \<Rightarrow> nat \<times> ustring list" where
  "seg_step U text i segments =
     (if \<not> isalpha U (text ! i) \<and> text ! i \<notin> set glottals
      then (i + 1, segments)
      else
        (case find_digraph U text i of
           Some dg \<Rightarrow>
             (let e = absorb_marks U text (i + length dg)
              in (e, segments @ [lower U (slice text i e)]))
         | None \<Rightarrow>
             (let e = absorb_marks U text (i + 1)
              in (e, segments @ [lower U (slice text i e)]))))"


declare absorb_marks.simps [simp del]

text \<open>The cursor never moves backwards in the inner loop.\<close>

lemma absorb_marks_ge: "e \<le> absorb_marks U text e"
proof (induction U "text" e rule: absorb_marks.induct)
  case (1 U w e)
  show ?case
  proof (cases "e < length w \<and> category_M U (w ! e)")
    case True
    with "1" have "e + 1 \<le> absorb_marks U w (e + 1)" by simp
    moreover from True have "absorb_marks U w e = absorb_marks U w (e + 1)"
      by (subst absorb_marks.simps) auto
    ultimately show ?thesis by simp
  next
    case False
    then have "absorb_marks U w e = e" by (subst absorb_marks.simps) auto
    then show ?thesis by simp
  qed
qed

lemma digraph_nonempty: "dg \<in> set digraphs \<Longrightarrow> dg \<noteq> []"
  by (auto simp: digraphs_def ustr_def)

lemma find_digraph_mem: "find_digraph U text i = Some dg \<Longrightarrow> dg \<in> set digraphs"
  unfolding find_digraph_def by (metis find_Some_iff nth_mem)

lemma seg_step_cursor: "i < fst (seg_step U text i segments)"
proof -
  have a: "i < absorb_marks U text (i + 1)"
    using absorb_marks_ge [of "i + 1" U "text"] by simp
  have b: "i < absorb_marks U text (i + length dg)"
    if "find_digraph U text i = Some dg" for dg
  proof -
    from that have "dg \<noteq> []"
      using find_digraph_mem digraph_nonempty by blast
    then have "0 < length dg" by simp
    then show ?thesis
      using absorb_marks_ge [of "i + length dg" U "text"] by linarith
  qed
  show ?thesis
    using a b by (auto simp: seg_step_def Let_def split: option.splits)
qed

lemma seg_step_measure:
  assumes "i < length text"
  shows "(case seg_step U text i segments of (i', segments') \<Rightarrow> length text - i')
           < length text - i"
proof (cases "seg_step U text i segments")
  case (Pair i' segments')
  then have "i < i'" using seg_step_cursor [of i U "text" segments] by simp
  with assms Pair show ?thesis by simp
qed

text \<open>
  The scanning loop \<open>while i < len(text)\<close>. Its recursion is justified by the
  distance of the cursor from the end of the text.
\<close>

function extract_loop :: "ucd \<Rightarrow> ustring \<Rightarrow> nat \<Rightarrow> ustring list \<Rightarrow> ustring list" where
  "extract_loop U text i segments =
     (if i < length text
      then (case seg_step U text i segments of
              (i', segments') \<Rightarrow> extract_loop U text i' segments')
      else segments)"
  by pat_completeness auto
termination
  apply (relation "measure (\<lambda>(U, text, i, segments). length text - i)")
   apply simp
  apply (simp add: seg_step_measure)
  done

declare extract_loop.simps [simp del]

definition extract_phonemes :: "ucd \<Rightarrow> pyval \<Rightarrow> ustring list" where
  "extract_phonemes U text =
     (case text of
        None \<Rightarrow> []
      | Some t \<Rightarrow>
          if t = [] then []
          else extract_loop U (normalize_form U (Some t)) 0 [])"


subsection \<open>The same loops, with index reads that may fail and no bound on the iterations\<close>

text \<open>
  In the functions above a read \<open>text[i]\<close> stands under the guard the source has, and
  the recursion is accepted because the cursor advances. The functions below make
  neither assumption: \<open>getitem\<close> raises \<open>IndexError\<close> out of range, and a loop
  that does not stop has the value \<open>None\<close>. That they always return a list of
  segments is a theorem, not a consequence of the definition.
\<close>

datatype py_error = IndexError | ZeroDivisionError

definition getitem :: "'a list \<Rightarrow> nat \<Rightarrow> py_error + 'a" where
  "getitem xs i = (if i < length xs then Inr (xs ! i) else Inl IndexError)"

partial_function (option) absorb_marks_run ::
  "ucd \<Rightarrow> ustring \<Rightarrow> nat \<Rightarrow> (py_error + nat) option" where
  "absorb_marks_run U text e =
     (if e < length text
      then (case getitem text e of
              Inl err \<Rightarrow> Some (Inl err)
            | Inr c \<Rightarrow>
                if category_M U c then absorb_marks_run U text (e + 1)
                else Some (Inr e))
      else Some (Inr e))"

definition seg_step_run ::
  "ucd \<Rightarrow> ustring \<Rightarrow> nat \<Rightarrow> ustring list \<Rightarrow> (py_error + nat \<times> ustring list) option" where
  "seg_step_run U text i segments =
     (case getitem text i of
        Inl err \<Rightarrow> Some (Inl err)
      | Inr c \<Rightarrow>
          if \<not> isalpha U c \<and> c \<notin> set glottals
          then Some (Inr (i + 1, segments))
          else
            (case find_digraph U text i of
               Some dg \<Rightarrow>
                 (case absorb_marks_run U text (i + length dg) of
                    None \<Rightarrow> None
                  | Some (Inl err) \<Rightarrow> Some (Inl err)
                  | Some (Inr e) \<Rightarrow>
                      Some (Inr (e, segments @ [lower U (slice text i e)])))
             | None \<Rightarrow>
                 (case absorb_marks_run U text (i + 1) of
                    None \<Rightarrow> None
                  | Some (Inl err) \<Rightarrow> Some (Inl err)
                  | Some (Inr e) \<Rightarrow>
                      Some (Inr (e, segments @ [lower U (slice text i e)])))))"

partial_function (option) extract_loop_run ::
  "ucd \<Rightarrow> ustring \<Rightarrow> nat \<Rightarrow> ustring list \<Rightarrow> (py_error + ustring list) option" where
  "extract_loop_run U text i segments =
     (if i < length text
      then (case seg_step_run U text i segments of
              None \<Rightarrow> None
            | Some (Inl err) \<Rightarrow> Some (Inl err)
            | Some (Inr (i', segments')) \<Rightarrow> extract_loop_run U text i' segments')
      else Some (Inr segments))"

definition extract_phonemes_run :: "ucd \<Rightarrow> pyval \<Rightarrow> (py_error + ustring list) option" where
  "extract_phonemes_run U text =
     (case text of
        None \<Rightarrow> Some (Inr [])
      | Some t \<Rightarrow>
          if t = [] then Some (Inr [])
          else extract_loop_run U (normalize_form U (Some t)) 0 [])"

section \<open>Counters\<close>

text \<open>
  A \<open>collections.Counter\<close> is a dictionary from keys to counts; a dictionary keeps its
  keys in the order of their first insertion, which \<open>most_common\<close> uses to break ties.
  It is modelled as an association list in insertion order.
\<close>

type_synonym 'k counter = "('k \<times> nat) list"

text \<open>\<open>c[k] += 1\<close>: a missing key counts as 0 and is appended.\<close>

fun counter_inc :: "'k \<Rightarrow> 'k counter \<Rightarrow> 'k counter" where
  "counter_inc k [] = [(k, 1)]"
| "counter_inc k ((k', n) # c) =
     (if k = k' then (k', n + 1) # c else (k', n) # counter_inc k c)"

text \<open>\<open>c[k]\<close>: 0 for a missing key.\<close>

definition counter_get :: "'k counter \<Rightarrow> 'k \<Rightarrow> nat" where
  "counter_get c k = (case map_of c k of None \<Rightarrow> 0 | Some n \<Rightarrow> n)"

text \<open>\<open>c.total()\<close>.\<close>

definition counter_total :: "'k counter \<Rightarrow> nat" where
  "counter_total c = sum_list (map snd c)"

text \<open>
  \<open>c.most_common(n)\<close> is \<open>heapq.nlargest(n, c.items(), key=itemgetter(1))\<close>, that is
  \<open>sorted(c.items(), key=itemgetter(1), reverse=True)[:n]\<close>: a stable sort by
  descending count.
\<close>

definition most_common :: "nat \<Rightarrow> 'k counter \<Rightarrow> ('k \<times> nat) list" where
  "most_common n c = take n (sort_key (\<lambda>(k, v). - int v) c)"

text \<open>A \<open>defaultdict(Counter)\<close>, and \<open>d[a][k] += 1\<close> on it.\<close>

type_synonym ('a, 'k) ddict = "('a \<times> 'k counter) list"

fun dd_inc :: "'a \<Rightarrow> 'k \<Rightarrow> ('a, 'k) ddict \<Rightarrow> ('a, 'k) ddict" where
  "dd_inc a k [] = [(a, counter_inc k [])]"
| "dd_inc a k ((a', c) # d) =
     (if a = a' then (a', counter_inc k c) # d else (a', c) # dd_inc a k d)"

definition dd_get :: "('a, 'k) ddict \<Rightarrow> 'a \<Rightarrow> 'k counter" where
  "dd_get d a = (case map_of d a of None \<Rightarrow> [] | Some c \<Rightarrow> c)"

definition dd_count :: "('a, 'k) ddict \<Rightarrow> 'a \<Rightarrow> 'k \<Rightarrow> nat" where
  "dd_count d a k = counter_get (dd_get d a) k"

section \<open>Lexical entries\<close>

text \<open>
  An entry of \<open>data['entries']\<close>: its gloss and its forms, a dictionary from language
  code to transcription. A language may be absent, and a value may be \<open>None\<close> or empty.
\<close>

record entry =
  gloss :: ustring
  forms :: "ustring \<rightharpoonup> pyval"

section \<open>Correspondence Engine\<close>

definition otomanguean_langs :: "ustring list" where
  "otomanguean_langs =
     [ustr ''otomian'', ustr ''trique'', ustr ''proto_mixtec'', ustr ''Unnamed: 5'',
      ustr ''zapotec_isthmus'', ustr ''Unnamed: 7'', ustr ''mazahua'']"

text \<open>\<open>form.split(',')[0]\<close>: the text before the first comma (44).\<close>

definition first_variant :: "ustring \<Rightarrow> ustring" where
  "first_variant form = takeWhile (\<lambda>c. c \<noteq> 44) form"

text \<open>
  The loop \<open>for lang in otomanguean_langs\<close> that fills the dictionary
  \<open>initial_segments\<close>. The source reads the roster from the module constant; here the
  loops take it as the argument \<open>langs\<close>, and the table the script builds is
  \<open>correspondence_pairs U otomanguean_langs entries\<close>.
\<close>

fun initial_segments :: "ucd \<Rightarrow> ustring list \<Rightarrow> (ustring \<rightharpoonup> pyval) \<Rightarrow>
    (ustring \<rightharpoonup> ustring) \<Rightarrow> (ustring \<rightharpoonup> ustring)" where
  "initial_segments U [] fm d = d"
| "initial_segments U (lang # langs) fm d =
     initial_segments U langs fm
       (case fm lang of
          Some (Some form) \<Rightarrow>
            if form \<noteq> [] then
              (case extract_phonemes U (Some (first_variant form)) of
                 [] \<Rightarrow> d
               | seg # _ \<Rightarrow> d(lang \<mapsto> seg))
            else d
        | _ \<Rightarrow> d)"

text \<open>\<open>itertools.combinations(xs, 2)\<close>.\<close>

fun combinations2 :: "'a list \<Rightarrow> ('a \<times> 'a) list" where
  "combinations2 [] = []"
| "combinations2 (x # xs) = map (Pair x) xs @ combinations2 xs"

text \<open>The loop \<open>for lang1, lang2 in combinations(otomanguean_langs, 2)\<close>.\<close>

fun compare_pairs :: "(ustring \<rightharpoonup> ustring) \<Rightarrow> (ustring \<times> ustring) list \<Rightarrow>
    (ustring \<times> ustring, ustring \<times> ustring) ddict \<Rightarrow>
    (ustring \<times> ustring, ustring \<times> ustring) ddict" where
  "compare_pairs d [] tbl = tbl"
| "compare_pairs d ((lang1, lang2) # ps) tbl =
     compare_pairs d ps
       (case (d lang1, d lang2) of
          (Some seg1, Some seg2) \<Rightarrow> dd_inc (lang1, lang2) (seg1, seg2) tbl
        | _ \<Rightarrow> tbl)"

text \<open>The body of \<open>for entry in data['entries']\<close>, and the loop itself.\<close>

definition correspondence_entry :: "ucd \<Rightarrow> ustring list \<Rightarrow> entry \<Rightarrow>
    (ustring \<times> ustring, ustring \<times> ustring) ddict \<Rightarrow>
    (ustring \<times> ustring, ustring \<times> ustring) ddict" where
  "correspondence_entry U langs e tbl =
     compare_pairs (initial_segments U langs (forms e) Map.empty) (combinations2 langs) tbl"

fun correspondence_loop :: "ucd \<Rightarrow> ustring list \<Rightarrow> entry list \<Rightarrow>
    (ustring \<times> ustring, ustring \<times> ustring) ddict \<Rightarrow>
    (ustring \<times> ustring, ustring \<times> ustring) ddict" where
  "correspondence_loop U langs [] tbl = tbl"
| "correspondence_loop U langs (e # es) tbl =
     correspondence_loop U langs es (correspondence_entry U langs e tbl)"

definition correspondence_pairs :: "ucd \<Rightarrow> ustring list \<Rightarrow> entry list \<Rightarrow>
    (ustring \<times> ustring, ustring \<times> ustring) ddict" where
  "correspondence_pairs U langs entries = correspondence_loop U langs entries []"

section \<open>Similarity Scorer\<close>

text \<open>
  \<open>a / b\<close> on integers raises \<open>ZeroDivisionError\<close> for \<open>b = 0\<close>. Python returns the
  quotient as a binary floating-point number; the model keeps the exact rational.
  For the comparisons made below (with 1, with 0.4, and between two scores) the
  two agree as long as the sets have fewer than \<open>2^26\<close> elements, since then two
  different quotients, or a quotient and 2/5, differ by more than the rounding error.
\<close>

definition truediv :: "nat \<Rightarrow> nat \<Rightarrow> py_error + rat" where
  "truediv a b = (if b = 0 then Inl ZeroDivisionError else Inr (of_nat a / of_nat b))"

definition phonetic_similarity :: "ucd \<Rightarrow> pyval \<Rightarrow> pyval \<Rightarrow> py_error + rat" where
  "phonetic_similarity U form1 form2 =
     (if form1 = None \<or> form1 = Some [] \<or> form2 = None \<or> form2 = Some [] then Inr 0
      else
        (let seg1 = set (extract_phonemes U form1);
             seg2 = set (extract_phonemes U form2)
         in if seg1 = {} \<or> seg2 = {} then Inr 0
            else
              (let intersection = card (seg1 \<inter> seg2);
                   union = card (seg1 \<union> seg2)
               in if union > 0 then truediv intersection union else Inr 0)))"

subsection \<open>Cognate candidates and their report\<close>

record candidate =
  cand_gloss :: ustring
  cand_popoluca :: pyval
  cand_lang :: ustring
  cand_form :: pyval
  similarity :: rat

text \<open>
  The loop \<open>for oto_lang in ['zapotec_isthmus', 'otomian', 'proto_mixtec']\<close>; a
  candidate is appended when \<open>sim > 0.4\<close>.
\<close>

fun oto_loop :: "ucd \<Rightarrow> ustring \<Rightarrow> (ustring \<rightharpoonup> pyval) \<Rightarrow> pyval \<Rightarrow> ustring list \<Rightarrow>
    candidate list \<Rightarrow> py_error + candidate list" where
  "oto_loop U g fm pop_form [] acc = Inr acc"
| "oto_loop U g fm pop_form (oto_lang # ls) acc =
     (case fm oto_lang of
        None \<Rightarrow> oto_loop U g fm pop_form ls acc
      | Some oto_form \<Rightarrow>
          (case phonetic_similarity U pop_form oto_form of
             Inl err \<Rightarrow> Inl err
           | Inr sim \<Rightarrow>
               oto_loop U g fm pop_form ls
                 (if sim > 2 / 5
                  then acc @ [\<lparr>cand_gloss = g, cand_popoluca = pop_form,
                               cand_lang = oto_lang, cand_form = oto_form,
                               similarity = sim\<rparr>]
                  else acc)))"

fun cognate_loop :: "ucd \<Rightarrow> entry list \<Rightarrow> candidate list \<Rightarrow> py_error + candidate list" where
  "cognate_loop U [] acc = Inr acc"
| "cognate_loop U (e # es) acc =
     (case forms e (ustr ''popoluca'') of
        None \<Rightarrow> cognate_loop U es acc
      | Some pop_form \<Rightarrow>
          (case oto_loop U (gloss e) (forms e) pop_form
                  [ustr ''zapotec_isthmus'', ustr ''otomian'', ustr ''proto_mixtec''] acc of
             Inl err \<Rightarrow> Inl err
           | Inr acc' \<Rightarrow> cognate_loop U es acc'))"

definition potential_cognates :: "ucd \<Rightarrow> entry list \<Rightarrow> py_error + candidate list" where
  "potential_cognates U entries = cognate_loop U entries []"

text \<open>
  The report:
  \<open>for item in sorted(potential_cognates, key=lambda x: -x['similarity'])[:15]\<close>,
  printing an item when its gloss is not in \<open>seen_glosses\<close>. The result is the list of
  printed items. \<open>sorted\<close> is stable, as \<open>sort_key\<close> is.
\<close>

fun report_loop :: "candidate list \<Rightarrow> ustring set \<Rightarrow> candidate list" where
  "report_loop [] seen_glosses = []"
| "report_loop (item # items) seen_glosses =
     (if cand_gloss item \<notin> seen_glosses
      then item # report_loop items (insert (cand_gloss item) seen_glosses)
      else report_loop items seen_glosses)"

definition cognate_report :: "candidate list \<Rightarrow> candidate list" where
  "cognate_report cands =
     report_loop (take 15 (sort_key (\<lambda>x. - similarity x) cands)) {}"

section \<open>Positional Alignment Engine\<close>

record proto_entry =
  pm_gloss :: ustring
  proto_form :: pyval
  trique :: pyval
  mixtec_daughter :: pyval

text \<open>\<open>d.get(k, '')\<close>.\<close>

definition get_or_empty :: "(ustring \<rightharpoonup> pyval) \<Rightarrow> ustring \<Rightarrow> pyval" where
  "get_or_empty fm k = (case fm k of None \<Rightarrow> Some [] | Some v \<Rightarrow> v)"

fun proto_mixtec_entries :: "entry list \<Rightarrow> proto_entry list" where
  "proto_mixtec_entries [] = []"
| "proto_mixtec_entries (e # es) =
     (case forms e (ustr ''proto_mixtec'') of
        None \<Rightarrow> proto_mixtec_entries es
      | Some pf \<Rightarrow>
          \<lparr>pm_gloss = gloss e, proto_form = pf,
            trique = get_or_empty (forms e) (ustr ''trique''),
            mixtec_daughter = get_or_empty (forms e) (ustr ''Unnamed: 5'')\<rparr>
          # proto_mixtec_entries es)"

text \<open>
  \<open>for i, pm_seg in enumerate(pm_segs[:min(3, len(pm_segs))])\<close>: the index \<open>i\<close> and the
  rest of the truncated list.
\<close>

fun align_loop :: "nat \<Rightarrow> ustring list \<Rightarrow> ustring list \<Rightarrow>
    (ustring, ustring) ddict \<Rightarrow> (ustring, ustring) ddict" where
  "align_loop i [] da_segs tbl = tbl"
| "align_loop i (pm_seg # rest) da_segs tbl =
     align_loop (i + 1) rest da_segs
       (if i < length da_segs then dd_inc pm_seg (da_segs ! i) tbl else tbl)"

definition align_entry :: "ucd \<Rightarrow> proto_entry \<Rightarrow>
    (ustring, ustring) ddict \<Rightarrow> (ustring, ustring) ddict" where
  "align_entry U pe tbl =
     (let pm_segs = extract_phonemes U (proto_form pe);
          da_segs = extract_phonemes U (mixtec_daughter pe)
      in align_loop 0 (slice pm_segs 0 (min 3 (length pm_segs))) da_segs tbl)"

fun pm_to_daughter_loop :: "ucd \<Rightarrow> proto_entry list \<Rightarrow>
    (ustring, ustring) ddict \<Rightarrow> (ustring, ustring) ddict" where
  "pm_to_daughter_loop U [] tbl = tbl"
| "pm_to_daughter_loop U (pe # pes) tbl =
     pm_to_daughter_loop U pes (align_entry U pe tbl)"

definition pm_to_daughter :: "ucd \<Rightarrow> entry list \<Rightarrow> (ustring, ustring) ddict" where
  "pm_to_daughter U entries = pm_to_daughter_loop U (proto_mixtec_entries entries) []"

text \<open>
  The report: \<open>for pm_seg in sorted(pm_to_daughter.keys())\<close>, printing the segment
  with \<open>most_common(3)\<close> when \<open>total() >= 3\<close>. Strings compare by code point.
\<close>

definition alignment_report :: "(ustring, ustring) ddict \<Rightarrow>
    (ustring \<times> (ustring \<times> nat) list) list" where
  "alignment_report tbl =
     map (\<lambda>pm_seg. (pm_seg, most_common 3 (dd_get tbl pm_seg)))
       (filter (\<lambda>pm_seg. counter_total (dd_get tbl pm_seg) \<ge> 3)
          (sort (map fst tbl)))"

section \<open>Properties of the Form Normalizer\<close>

subsection \<open>Facts about the normalizer\<close>

text \<open>No opening parenthesis with a closing one after it.\<close>

fun no_pair :: "ustring \<Rightarrow> bool" where
  "no_pair [] = True"
| "no_pair (c # cs) = ((c = 40 \<longrightarrow> 41 \<notin> set cs) \<and> no_pair cs)"

text \<open>Every white-space character is a single space before a character that is none.\<close>

fun ws_ok :: "ucd \<Rightarrow> ustring \<Rightarrow> bool" where
  "ws_ok U [] = True"
| "ws_ok U (c # cs) =
     ((isspace U c \<longrightarrow> c = 32 \<and> (case cs of [] \<Rightarrow> True | d # _ \<Rightarrow> \<not> isspace U d))
      \<and> ws_ok U cs)"

lemma set_tl_dropWhile: "set (tl (dropWhile P cs)) \<subseteq> set cs"
proof -
  have "set (tl (dropWhile P cs)) \<subseteq> set (dropWhile P cs)"
    by (metis list.set_sel(2) tl_Nil subsetI)
  also have "\<dots> \<subseteq> set cs" by (rule set_dropWhileD [THEN subsetI])
  finally show ?thesis .
qed

lemma set_sub_parens: "set (sub_parens s) \<subseteq> set s"
proof (induction s rule: sub_parens.induct)
  case 1
  show ?case by simp
next
  case (2 c cs)
  show ?case
  proof (cases "c = 40 \<and> 41 \<in> set cs")
    case True
    with "2.IH"(1) have "set (sub_parens (c # cs)) \<subseteq> set (tl (dropWhile (\<lambda>x. x \<noteq> 41) cs))"
      by simp
    also have "\<dots> \<subseteq> set cs" by (rule set_tl_dropWhile)
    finally show ?thesis by auto
  next
    case False
    with "2.IH"(2) show ?thesis by auto
  qed
qed

lemma no_pair_sub_parens: "no_pair (sub_parens s)"
proof (induction s rule: sub_parens.induct)
  case 1
  show ?case by simp
next
  case (2 c cs)
  show ?case
  proof (cases "c = 40 \<and> 41 \<in> set cs")
    case True
    with "2.IH"(1) show ?thesis by simp
  next
    case False
    with "2.IH"(2) have "no_pair (sub_parens cs)" by simp
    moreover have "c = 40 \<longrightarrow> 41 \<notin> set (sub_parens cs)"
      using False set_sub_parens [of cs] by auto
    ultimately show ?thesis using False by auto
  qed
qed

lemma sub_parens_id: "no_pair s \<Longrightarrow> sub_parens s = s"
  by (induction s) auto

lemma no_pair_append: "no_pair (xs @ ys) \<Longrightarrow> no_pair xs"
  by (induction xs) auto

lemma no_pair_filter: "no_pair s \<Longrightarrow> no_pair (filter P s)"
  by (induction s) auto

lemma no_pair_dropWhile: "no_pair s \<Longrightarrow> no_pair (dropWhile P s)"
  by (induction s) auto

lemma rstrip_prefix: "rev (dropWhile P (rev s)) @ rev (takeWhile P (rev s)) = s"
proof -
  have "rev (takeWhile P (rev s) @ dropWhile P (rev s)) = s" by simp
  then show ?thesis by (simp only: rev_append)
qed

lemma set_sub_spaces: "set (sub_spaces U s) \<subseteq> insert 32 (set s)"
proof (induction U s rule: sub_spaces.induct)
  case (1 U)
  show ?case by simp
next
  case (2 U c cs)
  show ?case
  proof (cases "isspace U c")
    case True
    with "2.IH"(1) have "set (sub_spaces U (dropWhile (isspace U) cs))
        \<subseteq> insert 32 (set (dropWhile (isspace U) cs))" by simp
    also have "\<dots> \<subseteq> insert 32 (set cs)"
      using set_dropWhileD [of _ "isspace U" cs] by auto
    finally show ?thesis using True by auto
  next
    case False
    with "2.IH"(2) show ?thesis by auto
  qed
qed

lemma no_pair_sub_spaces: "no_pair s \<Longrightarrow> no_pair (sub_spaces U s)"
proof (induction U s rule: sub_spaces.induct)
  case (1 U)
  show ?case by simp
next
  case (2 U c cs)
  from "2.prems" have cs: "no_pair cs" by simp
  show ?case
  proof (cases "isspace U c")
    case True
    with "2.IH"(1) cs have "no_pair (sub_spaces U (dropWhile (isspace U) cs))"
      by (simp add: no_pair_dropWhile)
    with True show ?thesis by simp
  next
    case False
    with "2.IH"(2) cs have "no_pair (sub_spaces U cs)" by simp
    moreover have "c = 40 \<longrightarrow> 41 \<notin> set (sub_spaces U cs)"
      using "2.prems" set_sub_spaces [of U cs] by auto
    ultimately show ?thesis using False by simp
  qed
qed

lemma no_pair_strip: "no_pair s \<Longrightarrow> no_pair (strip U s)"
proof -
  assume "no_pair s"
  then have "no_pair (dropWhile (isspace U) s)" by (rule no_pair_dropWhile)
  then have "no_pair (strip U s @ rev (takeWhile (isspace U) (rev (dropWhile (isspace U) s))))"
    unfolding strip_def by (simp only: rstrip_prefix)
  then show ?thesis by (rule no_pair_append)
qed

lemma set_strip: "set (strip U s) \<subseteq> set s"
proof -
  have "set (strip U s) \<subseteq> set (dropWhile (isspace U) s)"
    unfolding strip_def using set_dropWhileD [of _ "isspace U" "rev (dropWhile (isspace U) s)"]
    by auto
  also have "\<dots> \<subseteq> set s" using set_dropWhileD [of _ "isspace U" s] by auto
  finally show ?thesis .
qed

lemma sub_spaces_head:
  "\<not> isspace U d \<Longrightarrow> sub_spaces U (d # ds) = d # sub_spaces U ds"
  by simp

lemma ws_ok_sub_spaces: "ws_ok U (sub_spaces U s)"
proof (induction U s rule: sub_spaces.induct)
  case (1 U)
  show ?case by simp
next
  case (2 U c cs)
  show ?case
  proof (cases "isspace U c")
    case True
    with "2.IH"(1) have ih: "ws_ok U (sub_spaces U (dropWhile (isspace U) cs))" by simp
    have "case sub_spaces U (dropWhile (isspace U) cs) of [] \<Rightarrow> True | d # _ \<Rightarrow> \<not> isspace U d"
    proof (cases "dropWhile (isspace U) cs")
      case Nil
      then show ?thesis by (simp only: sub_spaces.simps list.case)
    next
      case (Cons d ds)
      then have "\<not> isspace U d" by (metis hd_dropWhile list.distinct(1) list.sel(1))
      with Cons show ?thesis by (simp del: dropWhile_eq_Cons_conv)
    qed
    with ih True show ?thesis by simp
  next
    case False
    with "2.IH"(2) show ?thesis by simp
  qed
qed

lemma sub_spaces_id: "ws_ok U s \<Longrightarrow> sub_spaces U s = s"
proof (induction s)
  case Nil
  show ?case by simp
next
  case (Cons c cs)
  then have ih: "sub_spaces U cs = cs" by simp
  show ?case
  proof (cases "isspace U c")
    case True
    with Cons.prems have c: "c = 32" and nxt: "case cs of [] \<Rightarrow> True | d # _ \<Rightarrow> \<not> isspace U d"
      by simp_all
    from nxt have "dropWhile (isspace U) cs = cs" by (cases cs) auto
    with True c ih show ?thesis by simp
  next
    case False
    with ih show ?thesis by simp
  qed
qed

lemma ws_ok_append: "ws_ok U (xs @ ys) \<Longrightarrow> ws_ok U xs"
proof (induction xs)
  case Nil
  show ?case by simp
next
  case (Cons x xs)
  then show ?case by (cases xs) auto
qed

lemma ws_ok_dropWhile: "ws_ok U s \<Longrightarrow> ws_ok U (dropWhile P s)"
  by (induction s) auto

lemma ws_ok_strip: "ws_ok U s \<Longrightarrow> ws_ok U (strip U s)"
proof -
  assume "ws_ok U s"
  then have "ws_ok U (dropWhile (isspace U) s)" by (rule ws_ok_dropWhile)
  then have "ws_ok U (strip U s @ rev (takeWhile (isspace U) (rev (dropWhile (isspace U) s))))"
    unfolding strip_def by (simp only: rstrip_prefix)
  then show ?thesis by (rule ws_ok_append)
qed

lemma dropWhile_fix: "xs = [] \<or> \<not> P (hd xs) \<Longrightarrow> dropWhile P xs = xs"
  by (cases xs) auto

lemma dropWhile_head: "dropWhile P xs = [] \<or> \<not> P (hd (dropWhile P xs))"
  by (metis hd_dropWhile)

lemma strip_strip: "strip U (strip U s) = strip U s"
proof -
  define d where "d = dropWhile (isspace U) s"
  define r where "r = dropWhile (isspace U) (rev d)"
  have o: "strip U s = rev r" by (simp add: strip_def d_def r_def)
  have r_fix: "dropWhile (isspace U) r = r"
    unfolding r_def by (rule dropWhile_fix) (rule dropWhile_head)
  have pre: "rev r @ rev (takeWhile (isspace U) (rev d)) = d"
    unfolding r_def by (rule rstrip_prefix)
  have d_head: "d = [] \<or> \<not> isspace U (hd d)"
    unfolding d_def by (rule dropWhile_head)
  have "rev r = [] \<or> \<not> isspace U (hd (rev r))"
  proof (cases "rev r")
    case Nil
    then show ?thesis by simp
  next
    case (Cons a as)
    with pre have "hd d = a" and "d \<noteq> []" by (metis append_Cons list.sel(1), metis append_Cons list.distinct(1))
    with d_head Cons show ?thesis by simp
  qed
  then have "dropWhile (isspace U) (rev r) = rev r" by (rule dropWhile_fix)
  then have "strip U (rev r) = rev (dropWhile (isspace U) r)" by (simp add: strip_def)
  with r_fix o show ?thesis by simp
qed

lemma normalize_form_Some:
  "t \<noteq> [] \<Longrightarrow> normalize_form U (Some t) = strip U (sub_spaces U (sub_asterisk (sub_parens t)))"
  by (simp add: normalize_form_def)

lemma normalize_form_empty: "normalize_form U None = []" "normalize_form U (Some []) = []"
  by (simp_all add: normalize_form_def)

lemma normalize_form_fixed:
  assumes "no_pair s" and "42 \<notin> set s" and "ws_ok U s" and "strip U s = s"
  shows "normalize_form U (Some s) = s"
proof (cases "s = []")
  case True
  then show ?thesis by (simp add: normalize_form_def)
next
  case False
  have "sub_parens s = s" using assms(1) by (rule sub_parens_id)
  moreover have "sub_asterisk s = s"
    using assms(2) by (auto simp: sub_asterisk_def filter_id_conv)
  moreover have "sub_spaces U s = s" using assms(3) by (rule sub_spaces_id)
  ultimately show ?thesis using False assms(4) by (simp add: normalize_form_Some)
qed

lemma normalize_form_props:
  "no_pair (normalize_form U text)" "42 \<notin> set (normalize_form U text)"
  "ws_ok U (normalize_form U text)"
  "strip U (normalize_form U text) = normalize_form U text"
proof -
  have "no_pair (normalize_form U text) \<and> 42 \<notin> set (normalize_form U text)
      \<and> ws_ok U (normalize_form U text)
      \<and> strip U (normalize_form U text) = normalize_form U text"
  proof (cases "text = None \<or> text = Some []")
    case True
    then show ?thesis by (auto simp: normalize_form_def strip_def)
  next
    case False
    then obtain t where t: "text = Some t" "t \<noteq> []" by auto
    define a where "a = sub_asterisk (sub_parens t)"
    have n: "normalize_form U text = strip U (sub_spaces U a)"
      using t by (simp add: normalize_form_Some a_def)
    have "no_pair a"
      unfolding a_def sub_asterisk_def by (intro no_pair_filter no_pair_sub_parens)
    then have 1: "no_pair (strip U (sub_spaces U a))"
      by (intro no_pair_strip no_pair_sub_spaces)
    have "42 \<notin> set a" by (simp add: a_def sub_asterisk_def)
    then have "42 \<notin> set (sub_spaces U a)" using set_sub_spaces [of U a] by auto
    then have 2: "42 \<notin> set (strip U (sub_spaces U a))"
      using set_strip [of U "sub_spaces U a"] by auto
    have 3: "ws_ok U (strip U (sub_spaces U a))"
      by (intro ws_ok_strip ws_ok_sub_spaces)
    have 4: "strip U (strip U (sub_spaces U a)) = strip U (sub_spaces U a)"
      by (rule strip_strip)
    from 1 2 3 4 n show ?thesis by simp
  qed
  then show "no_pair (normalize_form U text)" "42 \<notin> set (normalize_form U text)"
    "ws_ok U (normalize_form U text)"
    "strip U (normalize_form U text) = normalize_form U text"
    by simp_all
qed

text \<open>
  C7. The Form Normalizer is idempotent: normalizing the output of the Normalizer
  returns it unchanged, for every input (a string or \<open>None\<close>) and every character
  database.
\<close>

theorem normalize_form_idempotent:
  "normalize_form U (Some (normalize_form U text)) = normalize_form U text"
  by (intro normalize_form_fixed normalize_form_props)

theorem normalize_form_idempotent_witness:
  "normalize_form basic_ucd (Some (normalize_form basic_ucd (Some (ustr ''  *ts(x)a  1 ''))))
     = ustr ''tsa 1''"
  using normalize_form_idempotent [of basic_ucd "Some (ustr ''  *ts(x)a  1 '')"]
  by code_simp

lemma set_normalize_form: "set (normalize_form U (Some s)) \<subseteq> insert 32 (set s)"
proof (cases "s = []")
  case True
  then show ?thesis by (simp add: normalize_form_def)
next
  case False
  have "set (strip U (sub_spaces U (sub_asterisk (sub_parens s))))
          \<subseteq> set (sub_spaces U (sub_asterisk (sub_parens s)))" by (rule set_strip)
  also have "\<dots> \<subseteq> insert 32 (set (sub_asterisk (sub_parens s)))" by (rule set_sub_spaces)
  also have "\<dots> \<subseteq> insert 32 (set (sub_parens s))" by (auto simp: sub_asterisk_def)
  also have "\<dots> \<subseteq> insert 32 (set s)" using set_sub_parens [of s] by auto
  finally show ?thesis using False by (simp add: normalize_form_Some)
qed

lemma no_pair_plain: "40 \<notin> set s \<Longrightarrow> no_pair s"
  by (induction s) auto

lemma ws_ok_plain: "\<forall>c\<in>set s. \<not> isspace U c \<Longrightarrow> ws_ok U s"
  by (induction s) auto

lemma strip_plain: "\<forall>c\<in>set s. \<not> isspace U c \<Longrightarrow> strip U s = s"
proof -
  assume a: "\<forall>c\<in>set s. \<not> isspace U c"
  have plain: "dropWhile (isspace U) xs = xs" if "\<forall>c\<in>set xs. \<not> isspace U c" for xs
    using that by (cases xs) auto
  from a have "dropWhile (isspace U) s = s" by (rule plain)
  moreover from a have "dropWhile (isspace U) (rev s) = rev s" by (intro plain) simp
  ultimately show ?thesis by (simp add: strip_def)
qed

subsection \<open>What the Normalizer removes and what it keeps\<close>

text \<open>
  The words of a text, as \<open>str.split()\<close> gives them: the maximal runs of characters that
  are not white space. \<open>words_acc\<close> carries the word being read.
\<close>

fun words_acc :: "ucd \<Rightarrow> ustring \<Rightarrow> ustring \<Rightarrow> ustring list" where
  "words_acc U w [] = (if w = [] then [] else [w])"
| "words_acc U w (c # cs) =
     (if isspace U c
      then (if w = [] then words_acc U [] cs else w # words_acc U [] cs)
      else words_acc U (w @ [c]) cs)"

definition split_words :: "ucd \<Rightarrow> ustring \<Rightarrow> ustring list" where
  "split_words U t = words_acc U [] t"

text \<open>The words joined by single spaces, as \<open>' '.join\<close> does.\<close>

fun join_words :: "ustring list \<Rightarrow> ustring" where
  "join_words [] = []"
| "join_words [w] = w"
| "join_words (w # w' # ws) = w @ 32 # join_words (w' # ws)"

lemma join_words_Cons: "ws \<noteq> [] \<Longrightarrow> join_words (w # ws) = w @ 32 # join_words ws"
  by (cases ws) simp_all

lemma words_acc_skip: "words_acc U [] cs = words_acc U [] (dropWhile (isspace U) cs)"
  by (induction cs) simp_all

lemma words_acc_concat:
  "concat (words_acc U w t) = w @ filter (\<lambda>c. \<not> isspace U c) t"
  by (induction t arbitrary: w) simp_all

lemma words_acc_plain:
  "\<forall>c\<in>set w. \<not> isspace U c \<Longrightarrow> v \<in> set (words_acc U w t) \<Longrightarrow>
   v \<noteq> [] \<and> (\<forall>c\<in>set v. \<not> isspace U c)"
proof (induction t arbitrary: w)
  case Nil
  then show ?case by (cases "w = []") simp_all
next
  case (Cons c cs)
  show ?case
  proof (cases "isspace U c")
    case False
    with Cons.prems have "\<forall>x\<in>set (w @ [c]). \<not> isspace U x"
      and "v \<in> set (words_acc U (w @ [c]) cs)" by simp_all
    then show ?thesis by (rule Cons.IH)
  next
    case True
    have e: "\<forall>x\<in>set ([] :: ustring). \<not> isspace U x" by simp
    show ?thesis
    proof (cases "v \<in> set (words_acc U [] cs)")
      case True
      with e show ?thesis by (rule Cons.IH)
    next
      case False
      with Cons.prems(2) \<open>isspace U c\<close> have "v = w \<and> w \<noteq> []"
        by (cases "w = []") simp_all
      with Cons.prems(1) show ?thesis by simp
    qed
  qed
qed

text \<open>White space removed at the right end.\<close>

definition rstrip :: "ucd \<Rightarrow> ustring \<Rightarrow> ustring" where
  "rstrip U x = rev (dropWhile (isspace U) (rev x))"

lemma strip_rstrip: "strip U x = rstrip U (dropWhile (isspace U) x)"
  by (simp add: strip_def rstrip_def)

lemma rstrip_plain: "\<forall>c\<in>set w. \<not> isspace U c \<Longrightarrow> rstrip U w = w"
proof -
  assume a: "\<forall>c\<in>set w. \<not> isspace U c"
  have "dropWhile (isspace U) (rev w) = rev w"
  proof (cases "rev w")
    case Nil
    then show ?thesis by simp
  next
    case (Cons b bs)
    then have "b \<in> set w" by (metis list.set_intros(1) set_rev)
    with a Cons show ?thesis by simp
  qed
  then show ?thesis by (simp add: rstrip_def)
qed

lemma rstrip_append_space:
  "\<forall>c\<in>set y. isspace U c \<Longrightarrow> rstrip U (x @ y) = rstrip U x"
proof -
  assume "\<forall>c\<in>set y. isspace U c"
  then have "dropWhile (isspace U) (rev y @ rev x) = dropWhile (isspace U) (rev x)"
    by (intro dropWhile_append2) simp
  then show ?thesis by (simp add: rstrip_def)
qed

lemma rstrip_append:
  assumes "c \<in> set y" and "\<not> isspace U c"
  shows "rstrip U (x @ y) = x @ rstrip U y"
proof -
  from assms have "dropWhile (isspace U) (rev y @ rev x) = dropWhile (isspace U) (rev y) @ rev x"
    by (intro dropWhile_append1 [of c]) simp_all
  then show ?thesis by (simp add: rstrip_def)
qed

lemma rstrip_keeps:
  assumes "c \<in> set y" and "\<not> isspace U c"
  shows "rstrip U y \<noteq> []"
  using assms by (auto simp: rstrip_def dropWhile_eq_Nil_conv)

text \<open>
  The text after the white-space substitution, with the word \<open>w\<close> already read placed
  in front, and white space removed at the left when no word has been read.
\<close>

lemma sub_spaces_words:
  "isspace U 32 \<Longrightarrow> \<forall>c\<in>set w. \<not> isspace U c \<Longrightarrow>
     rstrip U (if w = [] then dropWhile (isspace U) (sub_spaces U t) else w @ sub_spaces U t)
       = join_words (words_acc U w t)"
proof (induction U t arbitrary: w rule: sub_spaces.induct)
  case (1 U)
  then show ?case by (simp add: rstrip_plain)
next
  case (2 U c cs)
  note sp = "2.prems"(1) and plain = "2.prems"(2)
  show ?case
  proof (cases "isspace U c")
    case False
    have "rstrip U ((w @ [c]) @ sub_spaces U cs) = join_words (words_acc U (w @ [c]) cs)"
      using "2.IH"(2) [OF False sp, of "w @ [c]"] plain False by simp
    with False show ?thesis by (cases "w = []") simp_all
  next
    case True
    let ?d = "dropWhile (isspace U) cs"
    have ih: "rstrip U (dropWhile (isspace U) (sub_spaces U ?d)) = join_words (words_acc U [] ?d)"
      using "2.IH"(1) [OF True sp, of "[]"] by simp
    have skip: "words_acc U [] cs = words_acc U [] ?d" by (rule words_acc_skip)
    show ?thesis
    proof (cases "w = []")
      case True
      with \<open>isspace U c\<close> sp ih skip show ?thesis by simp
    next
      case w: False
      show ?thesis
      proof (cases ?d)
        case Nil
        with skip have "words_acc U [] cs = words_acc U [] []" by (simp only:)
        then have "words_acc U [] cs = []" by simp
        moreover have "rstrip U (w @ [32]) = w"
          using sp plain rstrip_append_space [of "[32]" U w] by (simp add: rstrip_plain)
        ultimately show ?thesis using Nil w \<open>isspace U c\<close>
          by (simp del: dropWhile_eq_Nil_conv)
      next
        case (Cons e es)
        then have e: "\<not> isspace U e" by (metis hd_dropWhile list.distinct(1) list.sel(1))
        with Cons have s': "sub_spaces U ?d = e # sub_spaces U es"
          by (simp del: dropWhile_eq_Cons_conv)
        then have d': "dropWhile (isspace U) (sub_spaces U ?d) = sub_spaces U ?d"
          using e by simp
        have mem: "e \<in> set (32 # sub_spaces U ?d)" using s' by simp
        have ne: "rstrip U (sub_spaces U ?d) \<noteq> []"
          using e s' by (intro rstrip_keeps [of e]) simp_all
        have "rstrip U (w @ 32 # sub_spaces U ?d) = (w @ [32]) @ rstrip U (sub_spaces U ?d)"
          using rstrip_append [of e "sub_spaces U ?d" U "w @ [32]"] e s' by simp
        also have "\<dots> = w @ 32 # join_words (words_acc U [] ?d)"
          using ih d' by simp
        finally have r: "rstrip U (w @ 32 # sub_spaces U ?d)
            = w @ 32 # join_words (words_acc U [] ?d)" .
        from ne ih d' have "words_acc U [] ?d \<noteq> []" by auto
        then have "join_words (w # words_acc U [] ?d) = w @ 32 # join_words (words_acc U [] ?d)"
          by (rule join_words_Cons)
        with r w \<open>isspace U c\<close> skip show ?thesis by simp
      qed
    qed
  qed
qed

lemma normalize_form_words:
  assumes "isspace U 32"
  shows "normalize_form U (Some s)
     = join_words (split_words U (filter (\<lambda>c. c \<noteq> 42) (sub_parens s)))"
proof (cases "s = []")
  case True
  then show ?thesis by (simp add: normalize_form_def split_words_def)
next
  case False
  have "strip U (sub_spaces U (sub_asterisk (sub_parens s)))
      = join_words (words_acc U [] (sub_asterisk (sub_parens s)))"
    using sub_spaces_words [OF assms, of "[]" "sub_asterisk (sub_parens s)"]
    by (simp add: strip_rstrip)
  with False show ?thesis
    by (simp add: normalize_form_Some split_words_def sub_asterisk_def)
qed

text \<open>
  The parenthesis substitution: the text before the first opening parenthesis is kept,
  the group up to the first closing parenthesis after it is removed, and the rest is
  treated in the same way; a text without a group is left as it is.
\<close>

lemma sub_parens_group:
  "40 \<notin> set xs \<Longrightarrow> 41 \<notin> set ys \<Longrightarrow>
   sub_parens (xs @ 40 # ys @ 41 # zs) = xs @ sub_parens zs"
proof (induction xs)
  case Nil
  then have "\<And>x. x \<in> set ys \<Longrightarrow> x \<noteq> 41" by auto
  then have "dropWhile (\<lambda>x. x \<noteq> 41) (ys @ 41 # zs) = dropWhile (\<lambda>x. x \<noteq> 41) (41 # zs)"
    by (rule dropWhile_append2)
  then show ?case by simp
next
  case (Cons x xs)
  then show ?case by simp
qed

lemma no_pair_group: "\<not> no_pair (xs @ 40 # ys @ 41 # zs)"
  by (induction xs) simp_all

lemma no_pair_iff: "no_pair s \<longleftrightarrow> (\<forall>xs ys zs. s \<noteq> xs @ 40 # ys @ 41 # zs)"
proof
  assume "no_pair s"
  then show "\<forall>xs ys zs. s \<noteq> xs @ 40 # ys @ 41 # zs" using no_pair_group by metis
next
  show "\<forall>xs ys zs. s \<noteq> xs @ 40 # ys @ 41 # zs \<Longrightarrow> no_pair s"
  proof (induction s)
    case Nil
    show ?case by simp
  next
    case (Cons c cs)
    have "cs \<noteq> xs @ 40 # ys @ 41 # zs" for xs ys zs
      using Cons.prems [rule_format, of "c # xs" ys zs] by simp
    then have tail: "no_pair cs" using Cons.IH by blast
    have "41 \<notin> set cs" if "c = 40"
    proof
      assume "41 \<in> set cs"
      then obtain ys zs where "cs = ys @ 41 # zs" by (meson split_list)
      with that have "c # cs = [] @ 40 # ys @ 41 # zs" by simp
      with Cons.prems show False by blast
    qed
    with tail show ?case by simp
  qed
qed

text \<open>Removing white space, asterisks and spaces commutes with the later steps.\<close>

lemma filter_dropWhile_other:
  "(\<And>x. P x \<Longrightarrow> \<not> Q x) \<Longrightarrow> filter Q (dropWhile P xs) = filter Q xs"
  by (induction xs) auto

lemma filter_strip:
  assumes "\<And>x. isspace U x \<Longrightarrow> \<not> Q x"
  shows "filter Q (strip U xs) = filter Q xs"
proof -
  have "filter Q (strip U xs) = rev (filter Q (dropWhile (isspace U) (rev (dropWhile (isspace U) xs))))"
    by (simp add: strip_def rev_filter)
  also have "\<dots> = rev (filter Q (rev (dropWhile (isspace U) xs)))"
    using assms by (simp add: filter_dropWhile_other)
  also have "\<dots> = filter Q (dropWhile (isspace U) xs)" by (simp add: rev_filter)
  also have "\<dots> = filter Q xs" using assms by (rule filter_dropWhile_other)
  finally show ?thesis .
qed

lemma filter_sub_spaces:
  "(\<And>x. isspace U x \<Longrightarrow> \<not> Q x) \<Longrightarrow> \<not> Q 32 \<Longrightarrow>
   filter Q (sub_spaces U xs) = filter Q xs"
proof (induction U xs rule: sub_spaces.induct)
  case (1 U)
  show ?case by simp
next
  case (2 U c cs)
  show ?case
  proof (cases "isspace U c")
    case True
    have "filter Q (sub_spaces U (dropWhile (isspace U) cs)) = filter Q (dropWhile (isspace U) cs)"
      using "2.IH"(1) [OF True "2.prems"] .
    also have "\<dots> = filter Q cs" using "2.prems"(1) by (rule filter_dropWhile_other)
    finally show ?thesis using True "2.prems" by simp
  next
    case False
    with "2.IH"(2) [OF False "2.prems"] show ?thesis by simp
  qed
qed

lemma normalize_form_keeps:
  "filter (\<lambda>c. \<not> isspace U c \<and> c \<noteq> 42 \<and> c \<noteq> 32) (normalize_form U (Some s))
     = filter (\<lambda>c. \<not> isspace U c \<and> c \<noteq> 42 \<and> c \<noteq> 32) (sub_parens s)"
proof (cases "s = []")
  case True
  then show ?thesis by (simp add: normalize_form_def)
next
  case False
  let ?Q = "\<lambda>c. \<not> isspace U c \<and> c \<noteq> 42 \<and> c \<noteq> 32"
  let ?a = "sub_asterisk (sub_parens s)"
  have "filter ?Q (strip U (sub_spaces U ?a)) = filter ?Q (sub_spaces U ?a)"
    by (rule filter_strip) simp
  also have "\<dots> = filter ?Q ?a" by (rule filter_sub_spaces) simp_all
  also have "\<dots> = filter ?Q (sub_parens s)"
    by (simp add: sub_asterisk_def) (metis (mono_tags, lifting) filter_cong)
  finally show ?thesis using False by (simp add: normalize_form_Some)
qed

lemma normalize_form_digits:
  assumes "\<forall>d. 48 \<le> d \<and> d \<le> 57 \<longrightarrow> \<not> isspace U d"
  shows "filter (\<lambda>c. 48 \<le> c \<and> c \<le> 57) (normalize_form U (Some s))
     = filter (\<lambda>c. 48 \<le> c \<and> c \<le> 57) (sub_parens s)"
proof -
  let ?Q = "\<lambda>c. \<not> isspace U c \<and> c \<noteq> 42 \<and> c \<noteq> 32"
  let ?D = "\<lambda>c :: uchar. 48 \<le> c \<and> c \<le> 57"
  have d: "filter ?D xs = filter ?D (filter ?Q xs)" for xs
    using assms by (induction xs) auto
  show ?thesis
    by (subst d, subst (2) d) (simp only: normalize_form_keeps)
qed

text \<open>The white space left in the output.\<close>

lemma ws_ok_nth:
  "ws_ok U xs \<Longrightarrow> Suc i < length xs \<Longrightarrow> isspace U (xs ! i) \<Longrightarrow>
   xs ! i = 32 \<and> \<not> isspace U (xs ! Suc i)"
proof (induction xs arbitrary: i)
  case Nil
  then show ?case by simp
next
  case (Cons x xs)
  show ?case
  proof (cases i)
    case 0
    with Cons.prems show ?thesis by (cases xs) simp_all
  next
    case (Suc j)
    with Cons.prems Cons.IH [of j] show ?thesis by simp
  qed
qed

lemma strip_fixed_ends:
  assumes "strip U xs = xs" and "xs \<noteq> []"
  shows "\<not> isspace U (hd xs) \<and> \<not> isspace U (last xs)"
proof -
  let ?d = "dropWhile (isspace U) xs"
  have len: "length (strip U xs) \<le> length ?d"
    unfolding strip_def using length_dropWhile_le [of "isspace U" "rev ?d"] by simp
  have "length ?d \<le> length xs" by (rule length_dropWhile_le)
  with len assms(1) have "length ?d = length xs" by simp
  then have d: "?d = xs"
    by (metis (no_types, lifting) append_eq_conv_conj append_self_conv2 length_0_conv
        length_append add_cancel_left_left takeWhile_dropWhile_id)
  then have h: "\<not> isspace U (hd xs)" using assms(2) by (metis hd_dropWhile)
  from d assms(1) have "rev (dropWhile (isspace U) (rev xs)) = xs" by (simp add: strip_def)
  then have "dropWhile (isspace U) (rev xs) = rev xs" by (metis rev_rev_ident)
  then have "\<not> isspace U (hd (rev xs))" using assms(2) by (metis hd_dropWhile rev_is_Nil_conv)
  then have "\<not> isspace U (last xs)" using assms(2) by (simp add: hd_rev)
  with h show ?thesis by simp
qed

text \<open>
  C5, as the code has it. The Form Normalizer removes every parenthesised substring
  (from an opening parenthesis to the first closing one after it), removes every
  asterisk, puts one space for each run of white space and trims the ends; it removes
  nothing else, and tone digits stay. For every input: the output has no asterisk and no
  parenthesised substring; it neither starts nor ends with white space, and a
  white-space character in it is a single space before a character that is none; each
  of its characters is a character of the input or the space; where the space is white
  space for the character database, the output is the words of the input, after the
  parentheses and asterisks are gone, joined by single spaces; the characters other
  than white space and asterisks that stand outside parentheses are all kept, in their
  order, and so are the decimal digits among them; a string without opening
  parenthesis, asterisk and white space is returned as it is.
\<close>

theorem normalize_form_keeps_digits:
  "42 \<notin> set (normalize_form U text)
   \<and> set (normalize_form U (Some s)) \<subseteq> insert 32 (set s)
   \<and> ((\<forall>c\<in>set s. c \<noteq> 40 \<and> c \<noteq> 42 \<and> \<not> isspace U c) \<longrightarrow> normalize_form U (Some s) = s)
   \<and> (\<forall>xs ys zs. normalize_form U text \<noteq> xs @ 40 # ys @ 41 # zs)
   \<and> (normalize_form U text \<noteq> [] \<longrightarrow>
         \<not> isspace U (hd (normalize_form U text))
         \<and> \<not> isspace U (last (normalize_form U text)))
   \<and> (\<forall>i. Suc i < length (normalize_form U text) \<and> isspace U (normalize_form U text ! i) \<longrightarrow>
         normalize_form U text ! i = 32 \<and> \<not> isspace U (normalize_form U text ! Suc i))
   \<and> (isspace U 32 \<longrightarrow>
         normalize_form U (Some s)
           = join_words (split_words U (filter (\<lambda>c. c \<noteq> 42) (sub_parens s))))
   \<and> (\<forall>w\<in>set (split_words U t). w \<noteq> [] \<and> (\<forall>c\<in>set w. \<not> isspace U c))
   \<and> concat (split_words U t) = filter (\<lambda>c. \<not> isspace U c) t
   \<and> (40 \<notin> set xs \<and> 41 \<notin> set ys \<longrightarrow>
         sub_parens (xs @ 40 # ys @ 41 # zs) = xs @ sub_parens zs)
   \<and> ((\<forall>xs ys zs. s \<noteq> xs @ 40 # ys @ 41 # zs) \<longrightarrow> sub_parens s = s)
   \<and> filter (\<lambda>c. \<not> isspace U c \<and> c \<noteq> 42 \<and> c \<noteq> 32) (normalize_form U (Some s))
       = filter (\<lambda>c. \<not> isspace U c \<and> c \<noteq> 42 \<and> c \<noteq> 32) (sub_parens s)
   \<and> ((\<forall>d. 48 \<le> d \<and> d \<le> 57 \<longrightarrow> \<not> isspace U d) \<longrightarrow>
         filter (\<lambda>c. 48 \<le> c \<and> c \<le> 57) (normalize_form U (Some s))
           = filter (\<lambda>c. 48 \<le> c \<and> c \<le> 57) (sub_parens s))"
proof (intro conjI impI)
  show "42 \<notin> set (normalize_form U text)" by (rule normalize_form_props)
  show "set (normalize_form U (Some s)) \<subseteq> insert 32 (set s)" by (rule set_normalize_form)
  show "\<forall>xs ys zs. normalize_form U text \<noteq> xs @ 40 # ys @ 41 # zs"
    by (rule no_pair_iff [THEN iffD1, OF normalize_form_props(1)])
  show "\<forall>i. Suc i < length (normalize_form U text) \<and> isspace U (normalize_form U text ! i) \<longrightarrow>
         normalize_form U text ! i = 32 \<and> \<not> isspace U (normalize_form U text ! Suc i)"
    using ws_ok_nth [OF normalize_form_props(3) [of U "text"]] by blast
  show "\<forall>w\<in>set (split_words U t). w \<noteq> [] \<and> (\<forall>c\<in>set w. \<not> isspace U c)"
    unfolding split_words_def using words_acc_plain [of "[]" U _ t] by simp
  show "concat (split_words U t) = filter (\<lambda>c. \<not> isspace U c) t"
    by (simp add: split_words_def words_acc_concat)
  show "filter (\<lambda>c. \<not> isspace U c \<and> c \<noteq> 42 \<and> c \<noteq> 32) (normalize_form U (Some s))
       = filter (\<lambda>c. \<not> isspace U c \<and> c \<noteq> 42 \<and> c \<noteq> 32) (sub_parens s)"
    by (rule normalize_form_keeps)
next
  assume a: "\<forall>c\<in>set s. c \<noteq> 40 \<and> c \<noteq> 42 \<and> \<not> isspace U c"
  show "normalize_form U (Some s) = s"
  proof (rule normalize_form_fixed)
    show "no_pair s" using a by (intro no_pair_plain) auto
    show "42 \<notin> set s" using a by auto
    show "ws_ok U s" using a by (intro ws_ok_plain) auto
    show "strip U s = s" using a by (intro strip_plain) auto
  qed
next
  assume ne: "normalize_form U text \<noteq> []"
  have "strip U (normalize_form U text) = normalize_form U text" by (rule normalize_form_props)
  then have ends: "\<not> isspace U (hd (normalize_form U text))
      \<and> \<not> isspace U (last (normalize_form U text))"
    using ne by (rule strip_fixed_ends)
  from ends show "\<not> isspace U (hd (normalize_form U text))" by simp
  from ends show "\<not> isspace U (last (normalize_form U text))" by simp
next
  assume "isspace U 32"
  then show "normalize_form U (Some s)
           = join_words (split_words U (filter (\<lambda>c. c \<noteq> 42) (sub_parens s)))"
    by (rule normalize_form_words)
next
  assume "40 \<notin> set xs \<and> 41 \<notin> set ys"
  then show "sub_parens (xs @ 40 # ys @ 41 # zs) = xs @ sub_parens zs"
    by (simp add: sub_parens_group)
next
  assume "\<forall>xs ys zs. s \<noteq> xs @ 40 # ys @ 41 # zs"
  then have "no_pair s" by (rule no_pair_iff [THEN iffD2])
  then show "sub_parens s = s" by (rule sub_parens_id)
next
  assume "\<forall>d. 48 \<le> d \<and> d \<le> 57 \<longrightarrow> \<not> isspace U d"
  then show "filter (\<lambda>c. 48 \<le> c \<and> c \<le> 57) (normalize_form U (Some s))
           = filter (\<lambda>c. 48 \<le> c \<and> c \<le> 57) (sub_parens s)"
    by (rule normalize_form_digits)
qed

theorem normalize_form_keeps_digits_witness:
  "isspace basic_ucd 32
   \<and> normalize_form basic_ucd (Some (ustr ''*nda (x1)  3 ''))
       = join_words (split_words basic_ucd
           (filter (\<lambda>c. c \<noteq> 42) (sub_parens (ustr ''*nda (x1)  3 ''))))
   \<and> join_words (split_words basic_ucd
           (filter (\<lambda>c. c \<noteq> 42) (sub_parens (ustr ''*nda (x1)  3 '')))) = ustr ''nda 3''
   \<and> filter (\<lambda>c. 48 \<le> c \<and> c \<le> 57) (normalize_form basic_ucd (Some (ustr ''*nda (x1)  3 '')))
       = ustr ''3''"
proof -
  have sp: "isspace basic_ucd 32" by (simp add: basic_ucd_def)
  note words =
    normalize_form_keeps_digits [where U = basic_ucd and s = "ustr ''*nda (x1)  3 ''",
      THEN conjunct2, THEN conjunct2, THEN conjunct2, THEN conjunct2, THEN conjunct2,
      THEN conjunct2, THEN conjunct1, THEN mp, OF sp]
  have j: "join_words (split_words basic_ucd
           (filter (\<lambda>c. c \<noteq> 42) (sub_parens (ustr ''*nda (x1)  3 '')))) = ustr ''nda 3''"
    by code_simp
  have d: "filter (\<lambda>c. 48 \<le> c \<and> c \<le> 57) (ustr ''nda 3'') = ustr ''3''"
    by code_simp
  from words j d sp show ?thesis by simp
qed

text \<open>
  The claim as stated fails: the input \<open>a1\<close> is returned with its digit (code point
  49).
\<close>

theorem normalize_form_digit_counterexample:
  "normalize_form basic_ucd (Some (ustr ''a1'')) = ustr ''a1''
   \<and> 49 \<in> set (normalize_form basic_ucd (Some (ustr ''a1'')))"
  by code_simp

section \<open>Properties of the Segmenter\<close>

subsection \<open>The loops return\<close>

lemma absorb_marks_run_eq: "absorb_marks_run U text e = Some (Inr (absorb_marks U text e))"
proof (induction U "text" e rule: absorb_marks.induct)
  case (1 U w e)
  show ?case
  proof (cases "e < length w \<and> category_M U (w ! e)")
    case True
    then have "absorb_marks_run U w e = absorb_marks_run U w (e + 1)"
      by (subst absorb_marks_run.simps) (simp add: getitem_def)
    also have "\<dots> = Some (Inr (absorb_marks U w (e + 1)))" using "1" True by simp
    also have "absorb_marks U w (e + 1) = absorb_marks U w e"
      using True by (subst (2) absorb_marks.simps) simp
    finally show ?thesis .
  next
    case False
    then have "absorb_marks_run U w e = Some (Inr e)"
      by (subst absorb_marks_run.simps) (auto simp: getitem_def)
    moreover from False have "absorb_marks U w e = e"
      by (subst absorb_marks.simps) auto
    ultimately show ?thesis by simp
  qed
qed

lemma seg_step_run_eq:
  "i < length text \<Longrightarrow> seg_step_run U text i segments = Some (Inr (seg_step U text i segments))"
  by (simp add: seg_step_run_def seg_step_def getitem_def absorb_marks_run_eq Let_def
      split: option.splits)

lemma extract_loop_run_eq:
  "extract_loop_run U text i segments = Some (Inr (extract_loop U text i segments))"
proof (induction U "text" i segments rule: extract_loop.induct)
  case (1 U w i segments)
  show ?case
  proof (cases "i < length w")
    case True
    obtain i' segments' where st: "seg_step U w i segments = (i', segments')"
      by (cases "seg_step U w i segments")
    from True st have "extract_loop_run U w i segments = extract_loop_run U w i' segments'"
      by (subst extract_loop_run.simps) (simp add: seg_step_run_eq)
    also have "\<dots> = Some (Inr (extract_loop U w i' segments'))"
      using "1" [OF True st [symmetric]] .
    also have "extract_loop U w i' segments' = extract_loop U w i segments"
      using True st by (subst (2) extract_loop.simps) simp
    finally show ?thesis .
  next
    case False
    then have "extract_loop_run U w i segments = Some (Inr segments)"
      by (subst extract_loop_run.simps) simp
    moreover from False have "extract_loop U w i segments = segments"
      by (subst extract_loop.simps) simp
    ultimately show ?thesis by simp
  qed
qed

lemma extract_phonemes_run_eq:
  "extract_phonemes_run U text = Some (Inr (extract_phonemes U text))"
  by (simp add: extract_phonemes_run_def extract_phonemes_def extract_loop_run_eq
      split: option.splits)

lemma seg_step_skip:
  "\<not> isalpha U (text ! i) \<and> text ! i \<notin> set glottals \<Longrightarrow>
   seg_step U text i segments = (i + 1, segments)"
  by (simp add: seg_step_def)

text \<open>
  C10. The Segmenter terminates on every input. One pass through the body of the
  scanning loop, entered with the cursor \<open>i\<close> inside the text, returns a cursor
  strictly greater than \<open>i\<close> (exactly \<open>i + 1\<close> in the skip branch), so the distance to
  the end of the text decreases; the scanning loop started at any cursor, and the
  Segmenter on any input, return a list of segments.
\<close>

theorem segmenter_terminates:
  "(i < length text \<longrightarrow>
      (\<exists>i' segments'. seg_step_run U text i segments = Some (Inr (i', segments'))
         \<and> i < i' \<and> length text - i' < length text - i
         \<and> (\<not> isalpha U (text ! i) \<and> text ! i \<notin> set glottals \<longrightarrow> i' = i + 1)))
   \<and> (\<exists>out. extract_loop_run U text i segments = Some (Inr out))
   \<and> (\<exists>out. extract_phonemes_run U form = Some (Inr out))"
proof (intro conjI impI)
  assume lt: "i < length text"
  obtain i' segments' where st: "seg_step U text i segments = (i', segments')"
    by (cases "seg_step U text i segments")
  have "i < i'" using seg_step_cursor [of i U "text" segments] st by simp
  moreover have "seg_step_run U text i segments = Some (Inr (i', segments'))"
    using lt st by (simp add: seg_step_run_eq)
  moreover have "\<not> isalpha U (text ! i) \<and> text ! i \<notin> set glottals \<longrightarrow> i' = i + 1"
    using st seg_step_skip [of U "text" i segments] by auto
  ultimately show "\<exists>i' segments'. seg_step_run U text i segments = Some (Inr (i', segments'))
         \<and> i < i' \<and> length text - i' < length text - i
         \<and> (\<not> isalpha U (text ! i) \<and> text ! i \<notin> set glottals \<longrightarrow> i' = i + 1)"
    using lt by (intro exI [of _ i'] exI [of _ segments']) simp
next
  show "\<exists>out. extract_loop_run U text i segments = Some (Inr out)"
    by (simp add: extract_loop_run_eq)
  show "\<exists>out. extract_phonemes_run U form = Some (Inr out)"
    by (simp add: extract_phonemes_run_eq)
qed

theorem segmenter_terminates_witness:
  "0 < length (ustr ''t sa'')
   \<and> (\<exists>i' segments'. seg_step_run basic_ucd (ustr ''t sa'') 1 [ustr ''t''] = Some (Inr (i', segments'))
         \<and> i' = 2)
   \<and> (\<exists>out. extract_phonemes_run basic_ucd (Some (ustr ''t sa'')) = Some (Inr out))"
proof -
  have a: "1 < length (ustr ''t sa'')" by (simp add: ustr_def)
  have b: "\<not> isalpha basic_ucd (ustr ''t sa'' ! 1) \<and> ustr ''t sa'' ! 1 \<notin> set glottals"
    by (simp add: ustr_def basic_ucd_def glottals_def)
  show ?thesis
    using segmenter_terminates [of 1 "ustr ''t sa''" basic_ucd "[ustr ''t'']" "Some (ustr ''t sa'')"] a b
    by auto
qed

subsection \<open>Empty and missing transcriptions\<close>

lemma sub_spaces_all_space:
  "\<forall>c\<in>set s. isspace U c \<Longrightarrow> sub_spaces U s = (if s = [] then [] else [32])"
proof (cases s)
  case Nil
  then show ?thesis by simp
next
  case (Cons c cs)
  assume "\<forall>c\<in>set s. isspace U c"
  with Cons have "isspace U c" and "dropWhile (isspace U) cs = []" by auto
  with Cons show ?thesis by (simp del: dropWhile_eq_Nil_conv)
qed

lemma normalize_form_all_space:
  assumes "isspace U 32" and "\<forall>c\<in>set s. isspace U c"
  shows "normalize_form U (Some s) = []"
proof (cases "s = []")
  case True
  then show ?thesis by (simp add: normalize_form_def)
next
  case False
  define a where "a = sub_asterisk (sub_parens s)"
  have "set a \<subseteq> set s" using set_sub_parens [of s] by (auto simp: a_def sub_asterisk_def)
  with assms(2) have "\<forall>c\<in>set a. isspace U c" by auto
  then have "sub_spaces U a = (if a = [] then [] else [32])" by (rule sub_spaces_all_space)
  then have "strip U (sub_spaces U a) = []" using assms(1) by (simp add: strip_def)
  with False show ?thesis by (simp add: normalize_form_Some a_def)
qed

lemma extract_loop_Nil: "extract_loop U [] 0 [] = []"
  by (subst extract_loop.simps) simp

lemma extract_phonemes_all_space:
  assumes "isspace U 32" and "\<forall>c\<in>set s. isspace U c"
  shows "extract_phonemes U (Some s) = []"
  using normalize_form_all_space [OF assms]
  by (simp add: extract_phonemes_def extract_loop_Nil)

text \<open>
  C9. Let the space be white space for the character database, as it is in Python. For
  an input that is missing (\<open>None\<close>), empty, or made of white space only, the
  Normalizer returns the empty string and the Segmenter the empty sequence; the
  Segmenter run with failing index reads returns the same empty sequence and no error,
  and the Similarity Scorer gives 0 for such an input on either side, without error.
\<close>

theorem empty_input_propagates:
  assumes "isspace U 32"
    and "text = None \<or> (\<exists>s. text = Some s \<and> (\<forall>c\<in>set s. isspace U c))"
  shows "normalize_form U text = []
    \<and> extract_phonemes U text = []
    \<and> extract_phonemes_run U text = Some (Inr [])
    \<and> phonetic_similarity U text other = Inr 0
    \<and> phonetic_similarity U other text = Inr 0"
proof -
  have n: "normalize_form U text = []"
    using assms normalize_form_all_space [of U] by (auto simp: normalize_form_def)
  have e: "extract_phonemes U text = []"
    using assms extract_phonemes_all_space [of U] by (auto simp: extract_phonemes_def)
  have r: "extract_phonemes_run U text = Some (Inr [])"
    using e by (simp add: extract_phonemes_run_eq)
  have s1: "phonetic_similarity U text other = Inr 0"
    using e by (simp add: phonetic_similarity_def Let_def)
  have s2: "phonetic_similarity U other text = Inr 0"
    using e by (simp add: phonetic_similarity_def Let_def)
  from n e r s1 s2 show ?thesis by simp
qed

theorem empty_input_propagates_witness:
  "isspace basic_ucd 32 \<and> list_all (isspace basic_ucd) (ustr ''  '')
   \<and> normalize_form basic_ucd (Some (ustr ''  '')) = []
   \<and> extract_phonemes basic_ucd (Some (ustr ''  '')) = []
   \<and> extract_phonemes_run basic_ucd (Some (ustr ''  '')) = Some (Inr [])
   \<and> phonetic_similarity basic_ucd (Some (ustr ''  '')) (Some (ustr ''nda'')) = Inr 0"
proof -
  have a: "isspace basic_ucd 32" by (simp add: basic_ucd_def)
  have b: "\<forall>c\<in>set (ustr ''  ''). isspace basic_ucd c" by (simp add: basic_ucd_def ustr_def)
  then have c: "Some (ustr ''  '') = None \<or> (\<exists>s. Some (ustr ''  '') = Some s \<and> (\<forall>c\<in>set s. isspace basic_ucd c))"
    by simp
  show ?thesis
    using empty_input_propagates [OF a c, of "Some (ustr ''nda'')"] a b
    by (simp add: list_all_iff)
qed

section \<open>Character databases that agree on the characters of a text\<close>

text \<open>
  The functions consult the character database only about characters of their input
  (and the space the Normalizer writes), and about slices of it. Two databases that
  agree on a set of characters therefore give the same results on text over that set.
  In particular a result computed with \<open>basic_ucd\<close> on ASCII text holds for every
  database that agrees with \<open>basic_ucd\<close> on ASCII, as the interpreter's does.
\<close>

definition agree_on :: "uchar set \<Rightarrow> ucd \<Rightarrow> ucd \<Rightarrow> bool" where
  "agree_on A U V \<longleftrightarrow>
     (\<forall>c\<in>A. isalpha U c = isalpha V c \<and> isspace U c = isspace V c
             \<and> category_M U c = category_M V c)
     \<and> (\<forall>s. set s \<subseteq> A \<longrightarrow> lower U s = lower V s)"

definition ascii :: "uchar set" where
  "ascii = {c. c < 128}"

lemma agree_on_refl: "agree_on A U U"
  by (simp add: agree_on_def)

lemma agree_dropWhile:
  "agree_on A U V \<Longrightarrow> set s \<subseteq> A \<Longrightarrow> dropWhile (isspace U) s = dropWhile (isspace V) s"
  by (rule dropWhile_cong) (auto simp: agree_on_def)

lemma agree_sub_spaces:
  "agree_on A U V \<Longrightarrow> set s \<subseteq> A \<Longrightarrow> sub_spaces U s = sub_spaces V s"
proof (induction U s rule: sub_spaces.induct)
  case (1 U)
  show ?case by simp
next
  case (2 U c cs)
  from "2.prems" have c: "isspace U c = isspace V c" and cs: "set cs \<subseteq> A"
    by (auto simp: agree_on_def)
  show ?case
  proof (cases "isspace U c")
    case True
    have d: "dropWhile (isspace U) cs = dropWhile (isspace V) cs"
      using "2.prems"(1) cs by (rule agree_dropWhile)
    have "set (dropWhile (isspace U) cs) \<subseteq> A"
      using cs set_dropWhileD [of _ "isspace U" cs] by auto
    with "2.IH"(1) [OF True "2.prems"(1)]
    have "sub_spaces U (dropWhile (isspace U) cs) = sub_spaces V (dropWhile (isspace U) cs)" .
    with True c d show ?thesis by simp
  next
    case False
    with "2.IH"(2) [OF False "2.prems"(1) cs] c show ?thesis by simp
  qed
qed

lemma agree_strip:
  assumes "agree_on A U V" and "set s \<subseteq> A"
  shows "strip U s = strip V s"
proof -
  have 1: "dropWhile (isspace U) s = dropWhile (isspace V) s"
    using assms by (rule agree_dropWhile)
  have "set (rev (dropWhile (isspace V) s)) \<subseteq> A"
    using assms(2) set_dropWhileD [of _ "isspace V" s] by auto
  with assms(1)
  have "dropWhile (isspace U) (rev (dropWhile (isspace V) s))
      = dropWhile (isspace V) (rev (dropWhile (isspace V) s))"
    by (rule agree_dropWhile)
  with 1 show ?thesis by (simp add: strip_def)
qed

lemma agree_normalize_form:
  assumes "agree_on A U V" and "32 \<in> A" and "set s \<subseteq> A"
  shows "normalize_form U (Some s) = normalize_form V (Some s)"
proof -
  let ?a = "sub_asterisk (sub_parens s)"
  have a: "set ?a \<subseteq> A"
    using assms(3) set_sub_parens [of s] by (auto simp: sub_asterisk_def)
  with assms(1) have 1: "sub_spaces U ?a = sub_spaces V ?a" by (rule agree_sub_spaces)
  have "set (sub_spaces V ?a) \<subseteq> A" using a assms(2) set_sub_spaces [of V ?a] by auto
  with assms(1) have "strip U (sub_spaces V ?a) = strip V (sub_spaces V ?a)"
    by (rule agree_strip)
  with 1 show ?thesis by (simp add: normalize_form_def)
qed

lemma agree_absorb_marks:
  "agree_on A U V \<Longrightarrow> set t \<subseteq> A \<Longrightarrow> absorb_marks U t e = absorb_marks V t e"
proof (induction U t e rule: absorb_marks.induct)
  case (1 U w e)
  show ?case
  proof (cases "e < length w \<and> category_M U (w ! e)")
    case True
    then have "w ! e \<in> A" using "1.prems"(2) by auto
    with "1.prems"(1) True have v: "e < length w \<and> category_M V (w ! e)"
      by (simp add: agree_on_def)
    from True have "absorb_marks U w e = absorb_marks U w (e + 1)"
      by (subst absorb_marks.simps) auto
    also have "\<dots> = absorb_marks V w (e + 1)" using "1.IH" [OF True "1.prems"] .
    also from v have "\<dots> = absorb_marks V w e"
      by (subst (2) absorb_marks.simps) auto
    finally show ?thesis .
  next
    case False
    have "w ! e \<in> A" if "e < length w" using that "1.prems"(2) by auto
    with "1.prems"(1) False have v: "\<not> (e < length w \<and> category_M V (w ! e))"
      by (auto simp: agree_on_def)
    from False have "absorb_marks U w e = e" by (subst absorb_marks.simps) auto
    moreover from v have "absorb_marks V w e = e" by (subst absorb_marks.simps) auto
    ultimately show ?thesis by simp
  qed
qed

lemma set_slice: "set (slice t a b) \<subseteq> set t"
  unfolding slice_def by (meson set_drop_subset set_take_subset subset_trans)

lemma agree_lower_slice:
  "agree_on A U V \<Longrightarrow> set t \<subseteq> A \<Longrightarrow> lower U (slice t a b) = lower V (slice t a b)"
  using set_slice [of t a b] by (auto simp: agree_on_def)

lemma agree_find_digraph:
  "agree_on A U V \<Longrightarrow> set t \<subseteq> A \<Longrightarrow> find_digraph U t i = find_digraph V t i"
  by (simp add: find_digraph_def agree_lower_slice)

lemma agree_seg_step:
  assumes "agree_on A U V" and "set t \<subseteq> A" and "i < length t"
  shows "seg_step U t i segments = seg_step V t i segments"
proof -
  from assms(2,3) have "t ! i \<in> A" by auto
  with assms(1) have "isalpha U (t ! i) = isalpha V (t ! i)" by (simp add: agree_on_def)
  then show ?thesis
    by (simp add: seg_step_def Let_def agree_find_digraph [OF assms(1,2)]
        agree_absorb_marks [OF assms(1,2)] agree_lower_slice [OF assms(1,2)]
        split: option.splits)
qed

lemma agree_extract_loop:
  "agree_on A U V \<Longrightarrow> set t \<subseteq> A \<Longrightarrow> extract_loop U t i segments = extract_loop V t i segments"
proof (induction U t i segments rule: extract_loop.induct)
  case (1 U w i segments)
  show ?case
  proof (cases "i < length w")
    case True
    obtain i' segments' where st: "seg_step U w i segments = (i', segments')"
      by (cases "seg_step U w i segments")
    with "1.prems" True have sv: "seg_step V w i segments = (i', segments')"
      by (simp add: agree_seg_step)
    from True st have "extract_loop U w i segments = extract_loop U w i' segments'"
      by (subst extract_loop.simps) simp
    also have "\<dots> = extract_loop V w i' segments'"
      using "1.IH" [OF True st [symmetric] "1.prems"] .
    also from True sv have "\<dots> = extract_loop V w i segments"
      by (subst (2) extract_loop.simps) simp
    finally show ?thesis .
  next
    case False
    then have "extract_loop U w i segments = segments" "extract_loop V w i segments = segments"
      by (subst extract_loop.simps, simp)+
    then show ?thesis by simp
  qed
qed

lemma agree_extract_phonemes:
  assumes "agree_on A U V" and "32 \<in> A" and "set s \<subseteq> A"
  shows "extract_phonemes U (Some s) = extract_phonemes V (Some s)"
proof -
  have n: "normalize_form U (Some s) = normalize_form V (Some s)"
    using assms by (rule agree_normalize_form)
  have "set (normalize_form V (Some s)) \<subseteq> A"
    using set_normalize_form [of V s] assms(2,3) by auto
  with assms(1) show ?thesis
    by (simp add: extract_phonemes_def n agree_extract_loop)
qed

text \<open>A transcription, and the forms of an entry, over a set of characters.\<close>

definition over :: "uchar set \<Rightarrow> pyval \<Rightarrow> bool" where
  "over A v = (case v of None \<Rightarrow> True | Some s \<Rightarrow> set s \<subseteq> A)"

definition forms_over :: "uchar set \<Rightarrow> (ustring \<rightharpoonup> pyval) \<Rightarrow> bool" where
  "forms_over A fm = (\<forall>l v. fm l = Some v \<longrightarrow> over A v)"

lemma agree_extract_phonemes_over:
  "agree_on A U V \<Longrightarrow> 32 \<in> A \<Longrightarrow> over A v \<Longrightarrow> extract_phonemes U v = extract_phonemes V v"
proof (cases v)
  case None
  then show ?thesis by (simp add: extract_phonemes_def)
next
  case (Some s)
  assume "agree_on A U V" "32 \<in> A" "over A v"
  with Some show ?thesis by (simp add: over_def agree_extract_phonemes)
qed

lemma agree_phonetic_similarity:
  assumes "agree_on A U V" and "32 \<in> A" and "over A form1" and "over A form2"
  shows "phonetic_similarity U form1 form2 = phonetic_similarity V form1 form2"
  by (simp add: phonetic_similarity_def
      agree_extract_phonemes_over [OF assms(1,2,3)]
      agree_extract_phonemes_over [OF assms(1,2,4)])

lemma set_first_variant: "set (first_variant form) \<subseteq> set form"
  unfolding first_variant_def using set_takeWhileD by fastforce

lemma agree_initial_segments:
  assumes "agree_on A U V" and "32 \<in> A" and "forms_over A fm"
  shows "initial_segments U langs fm d = initial_segments V langs fm d"
proof (induction langs arbitrary: d)
  case Nil
  show ?case by simp
next
  case (Cons lang langs)
  have "extract_phonemes U (Some (first_variant form)) = extract_phonemes V (Some (first_variant form))"
    if "fm lang = Some (Some form)" for form
  proof -
    from that assms(3) have "over A (Some form)" unfolding forms_over_def by blast
    then have "set form \<subseteq> A" by (simp add: over_def)
    then have "set (first_variant form) \<subseteq> A" using set_first_variant [of form] by auto
    with assms(1,2) show ?thesis by (rule agree_extract_phonemes)
  qed
  then show ?case by (simp add: Cons.IH split: option.splits)
qed

lemma agree_correspondence_loop:
  assumes "agree_on A U V" and "32 \<in> A" and "list_all (\<lambda>e. forms_over A (forms e)) entries"
  shows "correspondence_loop U langs entries tbl = correspondence_loop V langs entries tbl"
  using assms(3)
  by (induction entries arbitrary: tbl)
     (simp_all add: correspondence_entry_def agree_initial_segments [OF assms(1,2)])

lemma agree_correspondence_pairs:
  assumes "agree_on A U V" and "32 \<in> A" and "list_all (\<lambda>e. forms_over A (forms e)) entries"
  shows "correspondence_pairs U langs entries = correspondence_pairs V langs entries"
  unfolding correspondence_pairs_def using assms by (rule agree_correspondence_loop)

lemma over_ascii: "list_all (\<lambda>c. c < 128) s \<Longrightarrow> over ascii (Some s)"
  by (simp add: over_def ascii_def list_all_iff subset_iff)

lemma forms_over_map_of:
  "list_all (\<lambda>(l, v). over A v) kvs \<Longrightarrow> forms_over A (map_of kvs)"
  unfolding forms_over_def list_all_iff by (auto dest: map_of_SomeD)

section \<open>Properties of the Similarity Scorer\<close>

lemma ratio_le_1: "a \<le> b \<Longrightarrow> (of_nat a / of_nat b :: rat) \<le> 1"
proof (cases "b = 0")
  case True
  then show ?thesis by simp
next
  case False
  assume "a \<le> b"
  with False show ?thesis by simp
qed

lemma truediv_pos: "0 < b \<Longrightarrow> truediv a b = Inr (of_nat a / of_nat b)"
  by (simp add: truediv_def)

lemma phonetic_similarity_value:
  "phonetic_similarity U form1 form2 =
     Inr (if extract_phonemes U form1 = [] \<or> extract_phonemes U form2 = [] then 0
          else of_nat (card (set (extract_phonemes U form1) \<inter> set (extract_phonemes U form2)))
               / of_nat (card (set (extract_phonemes U form1) \<union> set (extract_phonemes U form2))))"
proof (cases "extract_phonemes U form1 = [] \<or> extract_phonemes U form2 = []")
  case True
  then show ?thesis by (auto simp: phonetic_similarity_def Let_def)
next
  case False
  then have ne: "form1 \<noteq> None" "form1 \<noteq> Some []" "form2 \<noteq> None" "form2 \<noteq> Some []"
    by (auto simp: extract_phonemes_def split: option.splits)
  from False have "0 < card (set (extract_phonemes U form1) \<union> set (extract_phonemes U form2))"
    by (simp add: card_gt_0_iff)
  with False ne show ?thesis
    by (auto simp: phonetic_similarity_def Let_def truediv_pos)
qed

text \<open>
  C8. For all inputs (strings or \<open>None\<close>) the Similarity Scorer returns a number, never
  an error: the score is the same with the arguments exchanged, it lies between 0 and 1,
  and it is 0 whenever the set of distinct segments of either input is empty.
\<close>

theorem phonetic_similarity_symmetric_bounded:
  "\<exists>r. phonetic_similarity U form1 form2 = Inr r
     \<and> phonetic_similarity U form2 form1 = Inr r
     \<and> 0 \<le> r \<and> r \<le> 1
     \<and> (set (extract_phonemes U form1) = {} \<or> set (extract_phonemes U form2) = {} \<longrightarrow> r = 0)"
proof -
  let ?A = "set (extract_phonemes U form1)" and ?B = "set (extract_phonemes U form2)"
  let ?r = "if extract_phonemes U form1 = [] \<or> extract_phonemes U form2 = [] then 0
            else (of_nat (card (?A \<inter> ?B)) / of_nat (card (?A \<union> ?B)) :: rat)"
  have 1: "phonetic_similarity U form1 form2 = Inr ?r" by (rule phonetic_similarity_value)
  have 2: "phonetic_similarity U form2 form1 = Inr ?r"
    by (simp add: phonetic_similarity_value Int_commute Un_commute disj_commute)
  have "card (?A \<inter> ?B) \<le> card (?A \<union> ?B)" by (intro card_mono) auto
  then have q: "(of_nat (card (?A \<inter> ?B)) / of_nat (card (?A \<union> ?B)) :: rat) \<le> 1"
    by (rule ratio_le_1)
  have 3: "0 \<le> ?r" by simp
  have 4: "?r \<le> 1" using q by simp
  have 5: "?A = {} \<or> ?B = {} \<longrightarrow> ?r = 0" by simp
  from 1 2 3 4 5 show ?thesis by blast
qed

theorem phonetic_similarity_symmetric_bounded_witness:
  "\<exists>r. phonetic_similarity basic_ucd (Some (ustr ''tsa'')) (Some (ustr ''sa'')) = Inr r
     \<and> phonetic_similarity basic_ucd (Some (ustr ''sa'')) (Some (ustr ''tsa'')) = Inr r
     \<and> 0 \<le> r \<and> r \<le> 1"
  using phonetic_similarity_symmetric_bounded [of basic_ucd "Some (ustr ''tsa'')" "Some (ustr ''sa'')"]
  by blast

text \<open>
  C3, as the code has it. The Similarity Scorer applied to an input and itself returns 1
  when the input has at least one segment, and 0 when it has none; a non-empty string
  made of digits, punctuation or white space only has none.
\<close>

theorem phonetic_similarity_self:
  "phonetic_similarity U form form = Inr (if extract_phonemes U form = [] then 0 else 1)"
  by (simp add: phonetic_similarity_value card_gt_0_iff)

theorem phonetic_similarity_self_witness:
  "extract_phonemes basic_ucd (Some (ustr ''nda'')) \<noteq> []
   \<and> phonetic_similarity basic_ucd (Some (ustr ''nda'')) (Some (ustr ''nda'')) = Inr 1"
proof -
  have "extract_phonemes basic_ucd (Some (ustr ''nda'')) \<noteq> []" by code_simp
  with phonetic_similarity_self [of basic_ucd "Some (ustr ''nda'')"] show ?thesis by simp
qed

text \<open>
  The claim as stated fails: the non-empty string \<open>1\<close> has no segment, and its score with
  itself is 0.
\<close>

theorem phonetic_similarity_self_counterexample:
  "ustr ''1'' \<noteq> [] \<and> phonetic_similarity basic_ucd (Some (ustr ''1'')) (Some (ustr ''1'')) = Inr 0"
  by code_simp

section \<open>The examples of the specification\<close>

text \<open>
  The two entries of the example as the specification writes them, with the language
  codes A and B, and the same two entries with the forms under the first two languages
  of the roster of the script, \<open>otomian\<close> and \<open>trique\<close>.
\<close>

definition example_entries :: "entry list" where
  "example_entries =
     [\<lparr>gloss = ustr ''water'',
        forms = map_of [(ustr ''A'', Some (ustr ''tsa'')), (ustr ''B'', Some (ustr ''tsi''))]\<rparr>,
      \<lparr>gloss = ustr ''fire'',
        forms = map_of [(ustr ''A'', Some (ustr ''nda'')), (ustr ''B'', Some (ustr ''nda''))]\<rparr>]"

definition roster_example_entries :: "entry list" where
  "roster_example_entries =
     [\<lparr>gloss = ustr ''water'',
        forms = map_of [(ustr ''otomian'', Some (ustr ''tsa'')),
                        (ustr ''trique'', Some (ustr ''tsi''))]\<rparr>,
      \<lparr>gloss = ustr ''fire'',
        forms = map_of [(ustr ''otomian'', Some (ustr ''nda'')),
                        (ustr ''trique'', Some (ustr ''nda''))]\<rparr>]"

text \<open>
  C1, as the code has it. The script compares the languages of its own roster,
  \<open>otomanguean_langs\<close>, and no others. Let the character database agree with
  \<open>basic_ucd\<close> on ASCII. For the two entries water (tsa, tsi) and fire (nda, nda) with
  the forms under \<open>otomian\<close> and \<open>trique\<close>, the table of the Correspondence Engine has
  one language pair, (otomian, trique), with the initial-segment pairs (ts, ts) and
  (nd, nd), each counted once. For the same entries with the forms under the codes A and
  B, which are not in the roster, the table is empty. The Similarity Scorer gives 1 for
  nda and nda, and the Segmenter returns ts, a for tsa, not t, s, a.
\<close>

theorem spec_example_on_roster:
  assumes "agree_on ascii U basic_ucd"
  shows "correspondence_pairs U otomanguean_langs roster_example_entries =
     [((ustr ''otomian'', ustr ''trique''),
       [((ustr ''ts'', ustr ''ts''), 1), ((ustr ''nd'', ustr ''nd''), 1)])]
   \<and> dd_count (correspondence_pairs U otomanguean_langs roster_example_entries)
        (ustr ''otomian'', ustr ''trique'') (ustr ''ts'', ustr ''ts'') = 1
   \<and> dd_count (correspondence_pairs U otomanguean_langs roster_example_entries)
        (ustr ''otomian'', ustr ''trique'') (ustr ''nd'', ustr ''nd'') = 1
   \<and> correspondence_pairs U otomanguean_langs example_entries = []
   \<and> phonetic_similarity U (Some (ustr ''nda'')) (Some (ustr ''nda'')) = Inr 1
   \<and> extract_phonemes U (Some (ustr ''tsa'')) = [ustr ''ts'', ustr ''a'']
   \<and> extract_phonemes U (Some (ustr ''tsa'')) \<noteq> [ustr ''t'', ustr ''s'', ustr ''a'']"
proof -
  have sp: "32 \<in> ascii" by (simp add: ascii_def)
  have nda: "over ascii (Some (ustr ''nda''))" by (simp add: over_ascii ustr_def)
  have tsa: "set (ustr ''tsa'') \<subseteq> ascii" by (simp add: ascii_def ustr_def)
  have rex: "list_all (\<lambda>e. forms_over ascii (forms e)) roster_example_entries"
    by (simp add: roster_example_entries_def forms_over_map_of over_ascii ustr_def
        del: map_of.simps)
  have ex: "list_all (\<lambda>e. forms_over ascii (forms e)) example_entries"
    by (simp add: example_entries_def forms_over_map_of over_ascii ustr_def del: map_of.simps)
  have "correspondence_pairs U otomanguean_langs roster_example_entries
      = correspondence_pairs basic_ucd otomanguean_langs roster_example_entries"
    using assms sp rex by (rule agree_correspondence_pairs)
  also have "\<dots> = [((ustr ''otomian'', ustr ''trique''),
       [((ustr ''ts'', ustr ''ts''), 1), ((ustr ''nd'', ustr ''nd''), 1)])]"
    by code_simp
  finally have tbl: "correspondence_pairs U otomanguean_langs roster_example_entries =
     [((ustr ''otomian'', ustr ''trique''),
       [((ustr ''ts'', ustr ''ts''), 1), ((ustr ''nd'', ustr ''nd''), 1)])]" .
  have c1: "dd_count [((ustr ''otomian'', ustr ''trique''),
       [((ustr ''ts'', ustr ''ts''), 1), ((ustr ''nd'', ustr ''nd''), 1)])]
        (ustr ''otomian'', ustr ''trique'') (ustr ''ts'', ustr ''ts'') = 1"
    by code_simp
  have c2: "dd_count [((ustr ''otomian'', ustr ''trique''),
       [((ustr ''ts'', ustr ''ts''), 1), ((ustr ''nd'', ustr ''nd''), 1)])]
        (ustr ''otomian'', ustr ''trique'') (ustr ''nd'', ustr ''nd'') = 1"
    by code_simp
  have "correspondence_pairs U otomanguean_langs example_entries
      = correspondence_pairs basic_ucd otomanguean_langs example_entries"
    using assms sp ex by (rule agree_correspondence_pairs)
  also have "\<dots> = []" by code_simp
  finally have off: "correspondence_pairs U otomanguean_langs example_entries = []" .
  have "phonetic_similarity U (Some (ustr ''nda'')) (Some (ustr ''nda''))
      = phonetic_similarity basic_ucd (Some (ustr ''nda'')) (Some (ustr ''nda''))"
    using assms sp nda nda by (rule agree_phonetic_similarity)
  also have "\<dots> = Inr 1" by code_simp
  finally have sim: "phonetic_similarity U (Some (ustr ''nda'')) (Some (ustr ''nda'')) = Inr 1" .
  have "extract_phonemes U (Some (ustr ''tsa'')) = extract_phonemes basic_ucd (Some (ustr ''tsa''))"
    using assms sp tsa by (rule agree_extract_phonemes)
  also have "\<dots> = [ustr ''ts'', ustr ''a'']" by code_simp
  finally have seg: "extract_phonemes U (Some (ustr ''tsa'')) = [ustr ''ts'', ustr ''a'']" .
  have ne: "[ustr ''ts'', ustr ''a''] \<noteq> [ustr ''t'', ustr ''s'', ustr ''a'']" by simp
  show ?thesis unfolding tbl off seg using c1 c2 sim ne by (intro conjI) simp_all
qed

theorem spec_example_on_roster_witness:
  "correspondence_pairs basic_ucd otomanguean_langs roster_example_entries =
     [((ustr ''otomian'', ustr ''trique''),
       [((ustr ''ts'', ustr ''ts''), 1), ((ustr ''nd'', ustr ''nd''), 1)])]
   \<and> dd_count (correspondence_pairs basic_ucd otomanguean_langs roster_example_entries)
        (ustr ''otomian'', ustr ''trique'') (ustr ''ts'', ustr ''ts'') = 1
   \<and> dd_count (correspondence_pairs basic_ucd otomanguean_langs roster_example_entries)
        (ustr ''otomian'', ustr ''trique'') (ustr ''nd'', ustr ''nd'') = 1
   \<and> correspondence_pairs basic_ucd otomanguean_langs example_entries = []
   \<and> phonetic_similarity basic_ucd (Some (ustr ''nda'')) (Some (ustr ''nda'')) = Inr 1
   \<and> extract_phonemes basic_ucd (Some (ustr ''tsa'')) = [ustr ''ts'', ustr ''a'']
   \<and> extract_phonemes basic_ucd (Some (ustr ''tsa'')) \<noteq> [ustr ''t'', ustr ''s'', ustr ''a'']"
  using agree_on_refl [of ascii basic_ucd] by (rule spec_example_on_roster)

text \<open>
  The claim as stated fails: on the entries with the codes A and B the script counts
  nothing, since neither code is in its roster; the table is empty and the count of
  (ts, ts) under (A, B) is 0.
\<close>

theorem spec_example_outside_roster_counterexample:
  "correspondence_pairs basic_ucd otomanguean_langs example_entries = []
   \<and> dd_count (correspondence_pairs basic_ucd otomanguean_langs example_entries)
        (ustr ''A'', ustr ''B'') (ustr ''ts'', ustr ''ts'') = 0"
  by code_simp

section \<open>Properties of the counters\<close>

lemma map_of_counter_inc:
  "map_of (counter_inc k c) k' =
     (if k = k' then Some (counter_get c k + 1) else map_of c k')"
  by (induction c) (auto simp: counter_get_def)

lemma counter_get_inc:
  "counter_get (counter_inc k c) k' = counter_get c k' + (if k = k' then 1 else 0)"
  by (simp add: counter_get_def map_of_counter_inc)

lemma map_of_dd_inc:
  "map_of (dd_inc a k d) a' =
     (if a = a' then Some (counter_inc k (dd_get d a)) else map_of d a')"
  by (induction d) (auto simp: dd_get_def)

lemma dd_get_inc:
  "dd_get (dd_inc a k d) a' = (if a = a' then counter_inc k (dd_get d a) else dd_get d a')"
  by (simp add: dd_get_def map_of_dd_inc)

lemma dd_count_inc:
  "dd_count (dd_inc a k d) a' k' = dd_count d a' k' + (if a = a' \<and> k = k' then 1 else 0)"
  by (simp add: dd_count_def dd_get_inc counter_get_inc)

lemma dd_count_fold_inc:
  "dd_count (fold (\<lambda>(a, k). dd_inc a k) obs d) a' k' = dd_count d a' k' + count_list obs (a', k')"
  by (induction obs arbitrary: d) (auto simp: dd_count_inc split: if_splits)

section \<open>Properties of the Correspondence Engine\<close>

text \<open>
  The initial segment of a language in the forms of an entry, when it has one: the
  language is a key of the forms, its form is a non-empty string, and the first
  comma-variant of the form has a first segment.
\<close>

definition initial_of :: "ucd \<Rightarrow> (ustring \<rightharpoonup> pyval) \<Rightarrow> ustring \<Rightarrow> ustring option" where
  "initial_of U fm lang =
     (case fm lang of
        Some (Some form) \<Rightarrow>
          if form \<noteq> [] then
            (case extract_phonemes U (Some (first_variant form)) of
               [] \<Rightarrow> None
             | seg # _ \<Rightarrow> Some seg)
          else None
      | _ \<Rightarrow> None)"

lemma initial_of_Some_iff:
  "initial_of U fm lang = Some seg \<longleftrightarrow>
     (\<exists>form rest. fm lang = Some (Some form) \<and> form \<noteq> []
        \<and> extract_phonemes U (Some (first_variant form)) = seg # rest)"
  by (auto simp: initial_of_def split: option.splits list.splits)

lemma initial_segments_step:
  "initial_segments U (lang # langs) fm d =
     initial_segments U langs fm
       (case initial_of U fm lang of None \<Rightarrow> d | Some seg \<Rightarrow> d(lang \<mapsto> seg))"
  by (simp add: initial_of_def split: option.splits list.splits)

lemma initial_segments_lookup:
  "initial_segments U langs fm d l =
     (if l \<in> set langs \<and> initial_of U fm l \<noteq> None then initial_of U fm l else d l)"
proof (induction langs arbitrary: d)
  case Nil
  show ?case by simp
next
  case (Cons lang langs)
  show ?case
    unfolding initial_segments_step Cons.IH
    by (auto split: option.splits)
qed

lemma combinations2_mem:
  "(a, b) \<in> set (combinations2 xs) \<Longrightarrow> a \<in> set xs \<and> b \<in> set xs"
  by (induction xs) auto

lemma compare_pairs_count:
  "dd_count (compare_pairs d ps tbl) (l1, l2) (s1, s2) =
     dd_count tbl (l1, l2) (s1, s2)
     + (if d l1 = Some s1 \<and> d l2 = Some s2 then count_list ps (l1, l2) else 0)"
proof (induction ps arbitrary: tbl)
  case Nil
  show ?case by simp
next
  case (Cons p ps)
  obtain a b where p: "p = (a, b)" by (cases p)
  show ?case
    unfolding p compare_pairs.simps Cons.IH
    by (auto simp: dd_count_inc split: option.splits)
qed

lemma correspondence_entry_count:
  "dd_count (correspondence_entry U langs e tbl) (l1, l2) (s1, s2) =
     dd_count tbl (l1, l2) (s1, s2)
     + (if initial_of U (forms e) l1 = Some s1 \<and> initial_of U (forms e) l2 = Some s2
        then count_list (combinations2 langs) (l1, l2) else 0)"
proof (cases "(l1, l2) \<in> set (combinations2 langs)")
  case True
  then have "l1 \<in> set langs \<and> l2 \<in> set langs" by (rule combinations2_mem)
  then show ?thesis
    by (auto simp: correspondence_entry_def compare_pairs_count initial_segments_lookup)
next
  case False
  then have "count_list (combinations2 langs) (l1, l2) = 0" by (simp add: count_list_0_iff)
  then show ?thesis
    by (simp add: correspondence_entry_def compare_pairs_count)
qed

lemma correspondence_loop_count:
  "dd_count (correspondence_loop U langs entries tbl) (l1, l2) (s1, s2) =
     dd_count tbl (l1, l2) (s1, s2)
     + count_list (combinations2 langs) (l1, l2)
       * length (filter (\<lambda>e. initial_of U (forms e) l1 = Some s1
                              \<and> initial_of U (forms e) l2 = Some s2) entries)"
  by (induction entries arbitrary: tbl) (auto simp: correspondence_entry_count)

lemma dd_count_Nil: "dd_count [] a k = 0"
  by (simp add: dd_count_def dd_get_def counter_get_def)

text \<open>
  C2. An entry adds to the count of a segment pair \<open>(s1, s2)\<close> under a language pair
  \<open>(l1, l2)\<close> only when \<open>s1\<close> is the initial segment of \<open>l1\<close> and \<open>s2\<close> that of \<open>l2\<close> in
  that entry, and then once for each time the pair is among the combinations of the
  roster. An initial segment exists only for a language that is a key of the forms with
  a non-empty string whose first comma-variant has a first segment. So an entry in which
  a language has no initial segment leaves every count of every pair with that language
  as it was, and the count in the final table is the number of entries in which both
  languages have these initial segments, times the multiplicity of the pair.
\<close>

theorem correspondence_counts_only_resolved:
  "dd_count (correspondence_entry U langs e tbl) (l1, l2) (s1, s2) =
     dd_count tbl (l1, l2) (s1, s2)
     + (if initial_of U (forms e) l1 = Some s1 \<and> initial_of U (forms e) l2 = Some s2
        then count_list (combinations2 langs) (l1, l2) else 0)
   \<and> (initial_of U (forms e) l1 = Some s1 \<longleftrightarrow>
        (\<exists>form rest. forms e l1 = Some (Some form) \<and> form \<noteq> []
           \<and> extract_phonemes U (Some (first_variant form)) = s1 # rest))
   \<and> (initial_of U (forms e) x = None \<longrightarrow>
        dd_count (correspondence_entry U langs e tbl) (x, l2) (s1, s2)
          = dd_count tbl (x, l2) (s1, s2)
        \<and> dd_count (correspondence_entry U langs e tbl) (l1, x) (s1, s2)
          = dd_count tbl (l1, x) (s1, s2))
   \<and> dd_count (correspondence_pairs U langs entries) (l1, l2) (s1, s2) =
       count_list (combinations2 langs) (l1, l2)
       * length (filter (\<lambda>e. initial_of U (forms e) l1 = Some s1
                              \<and> initial_of U (forms e) l2 = Some s2) entries)"
proof (intro conjI impI)
  show "dd_count (correspondence_entry U langs e tbl) (l1, l2) (s1, s2) =
     dd_count tbl (l1, l2) (s1, s2)
     + (if initial_of U (forms e) l1 = Some s1 \<and> initial_of U (forms e) l2 = Some s2
        then count_list (combinations2 langs) (l1, l2) else 0)"
    by (rule correspondence_entry_count)
  show "initial_of U (forms e) l1 = Some s1 \<longleftrightarrow>
        (\<exists>form rest. forms e l1 = Some (Some form) \<and> form \<noteq> []
           \<and> extract_phonemes U (Some (first_variant form)) = s1 # rest)"
    by (rule initial_of_Some_iff)
  show "dd_count (correspondence_pairs U langs entries) (l1, l2) (s1, s2) =
       count_list (combinations2 langs) (l1, l2)
       * length (filter (\<lambda>e. initial_of U (forms e) l1 = Some s1
                              \<and> initial_of U (forms e) l2 = Some s2) entries)"
    by (simp add: correspondence_pairs_def correspondence_loop_count dd_count_Nil)
next
  assume "initial_of U (forms e) x = None"
  then show "dd_count (correspondence_entry U langs e tbl) (x, l2) (s1, s2)
          = dd_count tbl (x, l2) (s1, s2)"
    and "dd_count (correspondence_entry U langs e tbl) (l1, x) (s1, s2)
          = dd_count tbl (l1, x) (s1, s2)"
    by (simp_all add: correspondence_entry_count)
qed

theorem correspondence_counts_only_resolved_witness:
  "initial_of basic_ucd (map_of [(ustr ''A'', Some (ustr ''tsa'')), (ustr ''B'', Some (ustr ''(?)''))])
     (ustr ''B'') = None
   \<and> dd_count
        (correspondence_entry basic_ucd [ustr ''A'', ustr ''B'']
           \<lparr>gloss = ustr ''water'',
              forms = map_of [(ustr ''A'', Some (ustr ''tsa'')), (ustr ''B'', Some (ustr ''(?)''))]\<rparr>
           [])
        (ustr ''A'', ustr ''B'') (ustr ''ts'', ustr ''ts'')
      = dd_count [] (ustr ''A'', ustr ''B'') (ustr ''ts'', ustr ''ts'')"
proof -
  let ?fm = "map_of [(ustr ''A'', Some (ustr ''tsa'')), (ustr ''B'', Some (ustr ''(?)''))]"
  let ?e = "\<lparr>gloss = ustr ''water'', forms = ?fm\<rparr>"
  have h: "initial_of basic_ucd ?fm (ustr ''B'') = None" by code_simp
  then have h': "initial_of basic_ucd (forms ?e) (ustr ''B'') = None" by simp
  from correspondence_counts_only_resolved
    [where U = basic_ucd and langs = "[ustr ''A'', ustr ''B'']" and e = ?e and tbl = "[]"
       and ?l1.0 = "ustr ''A''" and ?l2.0 = "ustr ''B''" and ?s1.0 = "ustr ''ts''"
       and ?s2.0 = "ustr ''ts''" and x = "ustr ''B''" and entries = "[]"]
  have "initial_of basic_ucd (forms ?e) (ustr ''B'') = None \<longrightarrow>
        dd_count (correspondence_entry basic_ucd [ustr ''A'', ustr ''B''] ?e [])
           (ustr ''B'', ustr ''B'') (ustr ''ts'', ustr ''ts'')
          = dd_count [] (ustr ''B'', ustr ''B'') (ustr ''ts'', ustr ''ts'')
        \<and> dd_count (correspondence_entry basic_ucd [ustr ''A'', ustr ''B''] ?e [])
           (ustr ''A'', ustr ''B'') (ustr ''ts'', ustr ''ts'')
          = dd_count [] (ustr ''A'', ustr ''B'') (ustr ''ts'', ustr ''ts'')"
    by (elim conjE)
  with h' have "dd_count (correspondence_entry basic_ucd [ustr ''A'', ustr ''B''] ?e [])
           (ustr ''A'', ustr ''B'') (ustr ''ts'', ustr ''ts'')
          = dd_count [] (ustr ''A'', ustr ''B'') (ustr ''ts'', ustr ''ts'')"
    by (elim impE conjE)
  with h show ?thesis by (intro conjI)
qed

section \<open>Properties of the Positional Alignment Engine\<close>

text \<open>
  The observations of one entry, in the order in which the loop counts them: the first
  three source segments, each paired with the daughter segment at the same index, as
  far as the daughter has one.
\<close>

definition alignment_observations :: "ucd \<Rightarrow> proto_entry \<Rightarrow> (ustring \<times> ustring) list" where
  "alignment_observations U pe =
     zip (take 3 (extract_phonemes U (proto_form pe)))
         (extract_phonemes U (mixtec_daughter pe))"

lemma align_loop_fold:
  "align_loop i pm da tbl = fold (\<lambda>(s, t). dd_inc s t) (zip pm (drop i da)) tbl"
proof (induction pm arbitrary: i tbl)
  case Nil
  show ?case by simp
next
  case (Cons p pm)
  show ?case
  proof (cases "i < length da")
    case True
    then have "drop i da = da ! i # drop (Suc i) da" by (simp add: Cons_nth_drop_Suc)
    with True show ?thesis by (simp add: Cons.IH)
  next
    case False
    then show ?thesis by (simp add: Cons.IH)
  qed
qed

lemma take_min_length: "take (min n (length xs)) xs = take n xs"
  by (simp add: min_def)

lemma align_entry_fold:
  "align_entry U pe tbl = fold (\<lambda>(s, t). dd_inc s t) (alignment_observations U pe) tbl"
  by (simp add: align_entry_def Let_def slice_def align_loop_fold alignment_observations_def
      take_min_length)

lemma pm_to_daughter_loop_fold:
  "pm_to_daughter_loop U pes tbl =
     fold (\<lambda>(s, t). dd_inc s t) (concat (map (alignment_observations U) pes)) tbl"
  by (induction pes arbitrary: tbl) (simp_all add: align_entry_fold)

lemma counter_total_inc: "counter_total (counter_inc k c) = counter_total c + 1"
  by (induction c) (auto simp: counter_total_def)

lemma counter_total_fold_inc:
  "counter_total (dd_get (fold (\<lambda>(a, k). dd_inc a k) obs d) a') =
     counter_total (dd_get d a') + length (filter (\<lambda>ob. fst ob = a') obs)"
  by (induction obs arbitrary: d) (auto simp: dd_get_inc counter_total_inc)

lemma keys_counter_inc: "fst ` set (counter_inc k c) = insert k (fst ` set c)"
proof (induction c)
  case Nil
  show ?case by simp
next
  case (Cons x c)
  obtain k' n where x: "x = (k', n)" by (cases x)
  show ?case
  proof (cases "k = k'")
    case True
    then show ?thesis by (simp add: x)
  next
    case False
    then have "fst ` set (counter_inc k (x # c)) = insert k' (fst ` set (counter_inc k c))"
      by (simp add: x)
    also have "\<dots> = insert k' (insert k (fst ` set c))" by (simp only: Cons.IH)
    finally show ?thesis by (auto simp: x)
  qed
qed

lemma distinct_counter_inc:
  "distinct (map fst c) \<Longrightarrow> distinct (map fst (counter_inc k c))"
proof (induction c)
  case Nil
  show ?case by simp
next
  case (Cons x c)
  obtain k' n where x: "x = (k', n)" by (cases x)
  from Cons.prems have k': "k' \<notin> fst ` set c" and d: "distinct (map fst c)"
    by (simp_all add: x)
  show ?case
  proof (cases "k = k'")
    case True
    with k' d show ?thesis by (simp add: x)
  next
    case False
    from k' False have "k' \<notin> fst ` set (counter_inc k c)"
      by (simp only: keys_counter_inc) simp
    with False Cons.IH [OF d] show ?thesis by (simp add: x)
  qed
qed

text \<open>A table whose counters have no key twice.\<close>

definition counters_distinct :: "('a, 'k) ddict \<Rightarrow> bool" where
  "counters_distinct d = list_all (\<lambda>(a, c). distinct (map fst c)) d"

lemma counters_distinct_inc:
  "counters_distinct d \<Longrightarrow> counters_distinct (dd_inc a k d)"
  by (induction d) (auto simp: counters_distinct_def distinct_counter_inc)

lemma counters_distinct_fold:
  "counters_distinct d \<Longrightarrow> counters_distinct (fold (\<lambda>(a, k). dd_inc a k) obs d)"
  by (induction obs arbitrary: d) (auto simp: counters_distinct_inc)

lemma counters_distinct_get:
  "counters_distinct d \<Longrightarrow> distinct (map fst (dd_get d a))"
proof -
  assume d: "counters_distinct d"
  show ?thesis
  proof (cases "map_of d a")
    case None
    then show ?thesis by (simp add: dd_get_def)
  next
    case (Some c)
    then have "(a, c) \<in> set d" by (rule map_of_SomeD)
    with d have "distinct (map fst c)" by (auto simp: counters_distinct_def list_all_iff)
    with Some show ?thesis by (simp add: dd_get_def)
  qed
qed

lemma counter_get_distinct:
  "distinct (map fst c) \<Longrightarrow> (k, n) \<in> set c \<Longrightarrow> counter_get c k = n"
  by (simp add: counter_get_def)

lemma counter_get_absent: "k \<notin> fst ` set c \<Longrightarrow> counter_get c k = 0"
proof -
  assume "k \<notin> fst ` set c"
  then have "map_of c k = None" by (rule map_of_eq_None_iff [THEN iffD2])
  then show ?thesis by (simp add: counter_get_def)
qed

lemma most_common_length: "length (most_common n c) \<le> n"
  by (simp add: most_common_def)

lemma most_common_subset: "set (most_common n c) \<subseteq> set c"
  using set_take_subset [of n "sort_key (\<lambda>(k, v). - int v) c"] by (simp add: most_common_def)

lemma most_common_sorted: "sorted (map (\<lambda>(k, v). - int v) (most_common n c))"
proof -
  have "sorted (map (\<lambda>(k, v). - int v) (sort_key (\<lambda>(k, v). - int v) c))"
    by (rule sorted_sort_key)
  then show ?thesis
    unfolding most_common_def by (simp add: take_map [symmetric] sorted_wrt_take)
qed

lemma most_common_top:
  assumes "x \<in> set c" and "x \<notin> set (most_common n c)" and "y \<in> set (most_common n c)"
  shows "snd x \<le> snd y"
proof -
  let ?f = "\<lambda>(k, v). - int (v :: nat)"
  let ?xs = "sort_key ?f c"
  have "sorted (map ?f (take n ?xs @ drop n ?xs))" by (simp add: sorted_sort_key)
  then have le: "\<forall>a\<in>set (take n ?xs). \<forall>b\<in>set (drop n ?xs). ?f a \<le> ?f b"
    by (simp only: map_append sorted_append) auto
  have "set ?xs = set (take n ?xs) \<union> set (drop n ?xs)"
    by (metis append_take_drop_id set_append)
  with assms(1) have "x \<in> set (take n ?xs) \<union> set (drop n ?xs)" by simp
  with assms(2) have "x \<in> set (drop n ?xs)" by (simp add: most_common_def)
  with le assms(3) have "?f y \<le> ?f x" by (auto simp: most_common_def)
  then show ?thesis by (cases x, cases y) simp
qed

lemma alignment_report_iff:
  "(s, tops) \<in> set (alignment_report tbl) \<longleftrightarrow>
     s \<in> fst ` set tbl \<and> 3 \<le> counter_total (dd_get tbl s) \<and> tops = most_common 3 (dd_get tbl s)"
  by (auto simp: alignment_report_def)

lemma dd_get_absent: "a \<notin> fst ` set d \<Longrightarrow> dd_get d a = []"
proof -
  assume "a \<notin> fst ` set d"
  then have "map_of d a = None" by (rule map_of_eq_None_iff [THEN iffD2])
  then show ?thesis by (simp add: dd_get_def)
qed

lemma alignment_report_mem:
  "(s, tops) \<in> set (alignment_report tbl) \<longleftrightarrow>
     3 \<le> counter_total (dd_get tbl s) \<and> tops = most_common 3 (dd_get tbl s)"
proof -
  have "s \<in> fst ` set tbl" if "3 \<le> counter_total (dd_get tbl s)"
  proof (rule ccontr)
    assume "s \<notin> fst ` set tbl"
    then have "dd_get tbl s = []" by (rule dd_get_absent)
    with that show False by (simp add: counter_total_def)
  qed
  then show ?thesis unfolding alignment_report_iff by blast
qed

lemma counters_distinct_pm_to_daughter: "counters_distinct (pm_to_daughter U entries)"
  unfolding pm_to_daughter_def pm_to_daughter_loop_fold
  by (rule counters_distinct_fold) (simp add: counters_distinct_def)

lemma most_common_counts:
  assumes "counters_distinct tbl" and "(t, n) \<in> set (most_common m (dd_get tbl s))"
  shows "n = dd_count tbl s t"
    and "t' \<in> fst ` set (most_common m (dd_get tbl s)) \<or> dd_count tbl s t' \<le> n"
proof -
  let ?c = "dd_get tbl s"
  have d: "distinct (map fst ?c)" using assms(1) by (rule counters_distinct_get)
  from assms(2) have mem: "(t, n) \<in> set ?c" using most_common_subset by blast
  with d show "n = dd_count tbl s t" by (simp add: dd_count_def counter_get_distinct)
  show "t' \<in> fst ` set (most_common m ?c) \<or> dd_count tbl s t' \<le> n"
  proof (cases "t' \<in> fst ` set ?c")
    case False
    then show ?thesis by (simp add: dd_count_def counter_get_absent)
  next
    case True
    then obtain n' where n': "(t', n') \<in> set ?c" by auto
    with d have c: "dd_count tbl s t' = n'" by (simp add: dd_count_def counter_get_distinct)
    show ?thesis
    proof (cases "(t', n') \<in> set (most_common m ?c)")
      case True
      then show ?thesis by force
    next
      case False
      from n' False assms(2) have "snd (t', n') \<le> snd (t, n)" by (rule most_common_top)
      with c show ?thesis by simp
    qed
  qed
qed

lemma alignment_observations_length:
  "length (alignment_observations U pe) =
     min (min 3 (length (extract_phonemes U (proto_form pe))))
         (length (extract_phonemes U (mixtec_daughter pe)))"
  by (simp add: alignment_observations_def min.commute)

lemma alignment_observations_nth:
  "i < length (alignment_observations U pe) \<Longrightarrow>
   alignment_observations U pe ! i =
     (extract_phonemes U (proto_form pe) ! i, extract_phonemes U (mixtec_daughter pe) ! i)"
  by (simp add: alignment_observations_def)

text \<open>A table whose counters hold positive counts only.\<close>

definition counters_positive :: "('a, 'k) ddict \<Rightarrow> bool" where
  "counters_positive d = list_all (\<lambda>(a, c). list_all (\<lambda>(k, n). 0 < n) c) d"

lemma positive_counter_inc:
  "list_all (\<lambda>(k, n). 0 < n) c \<Longrightarrow> list_all (\<lambda>(k, n). 0 < n) (counter_inc k' c)"
  by (induction c) auto

lemma counters_positive_inc:
  "counters_positive d \<Longrightarrow> counters_positive (dd_inc a k d)"
  by (induction d) (auto simp: counters_positive_def positive_counter_inc)

lemma counters_positive_fold:
  "counters_positive d \<Longrightarrow> counters_positive (fold (\<lambda>(a, k). dd_inc a k) obs d)"
  by (induction obs arbitrary: d) (auto simp: counters_positive_inc)

lemma counters_positive_get:
  "counters_positive d \<Longrightarrow> list_all (\<lambda>(k, n). 0 < n) (dd_get d a)"
proof -
  assume d: "counters_positive d"
  show ?thesis
  proof (cases "map_of d a")
    case None
    then show ?thesis by (simp add: dd_get_def)
  next
    case (Some c)
    then have "(a, c) \<in> set d" by (rule map_of_SomeD)
    with d have "list_all (\<lambda>(k, n). 0 < n) c"
      by (auto simp: counters_positive_def list_all_iff)
    with Some show ?thesis by (simp add: dd_get_def)
  qed
qed

lemma counters_positive_pm_to_daughter: "counters_positive (pm_to_daughter U entries)"
  unfolding pm_to_daughter_def pm_to_daughter_loop_fold
  by (rule counters_positive_fold) (simp add: counters_positive_def)

lemma counter_keys_card:
  assumes "distinct (map fst c)" and "list_all (\<lambda>(k, n). 0 < n) c"
  shows "length c = card {k. 0 < counter_get c k}"
proof -
  have "{k. 0 < counter_get c k} = fst ` set c"
  proof (intro set_eqI iffI)
    fix k
    assume "k \<in> {k. 0 < counter_get c k}"
    then have nz: "counter_get c k \<noteq> 0" by simp
    show "k \<in> fst ` set c"
    proof (rule ccontr)
      assume "k \<notin> fst ` set c"
      then have "counter_get c k = 0" by (rule counter_get_absent)
      with nz show False by simp
    qed
  next
    fix k
    assume "k \<in> fst ` set c"
    then obtain n where kn: "(k, n) \<in> set c" by auto
    with assms(2) have "0 < n" by (auto simp: list_all_iff)
    moreover from assms(1) kn have "counter_get c k = n" by (rule counter_get_distinct)
    ultimately show "k \<in> {k. 0 < counter_get c k}" by simp
  qed
  moreover have "card (fst ` set c) = length c"
    using distinct_card [OF assms(1)] by simp
  ultimately show ?thesis by simp
qed

lemma most_common_length_eq: "length (most_common n c) = min n (length c)"
  by (simp add: most_common_def min.commute)

lemma most_common_distinct:
  assumes "distinct (map fst c)"
  shows "distinct (map fst (most_common n c))"
proof -
  let ?xs = "sort_key (\<lambda>(k, v). - int v) c"
  from assms have "distinct c" and "inj_on fst (set c)" by (simp_all add: distinct_map)
  then have "distinct (map fst ?xs)" by (simp add: distinct_map)
  then have "distinct (take n (map fst ?xs))" by (rule distinct_take)
  then show ?thesis by (simp add: most_common_def take_map)
qed

text \<open>
  Among the items of one count, the listed ones are the first in the order of the
  counter, which is the order in which the keys were first counted.
\<close>

lemma most_common_ties:
  "\<exists>rest. filter (\<lambda>y. snd y = m) c = filter (\<lambda>y. snd y = m) (most_common n c) @ rest"
proof -
  let ?f = "\<lambda>(k, v). - int (v :: nat)"
  let ?xs = "sort_key ?f c"
  have eq: "(\<lambda>y. ?f y = - int m) = (\<lambda>y. snd y = m)" by (auto simp: fun_eq_iff)
  have "filter (\<lambda>y. ?f y = - int m) ?xs = filter (\<lambda>y. ?f y = - int m) c"
    by (rule sort_key_stable)
  then have "filter (\<lambda>y. snd y = m) c = filter (\<lambda>y. snd y = m) ?xs" by (simp only: eq)
  also have "\<dots> = filter (\<lambda>y. snd y = m) (take n ?xs @ drop n ?xs)" by simp
  also have "\<dots> = filter (\<lambda>y. snd y = m) (most_common n c) @ filter (\<lambda>y. snd y = m) (drop n ?xs)"
    by (simp only: filter_append most_common_def)
  finally show ?thesis by blast
qed

lemma most_common_targets:
  "length (most_common 3 (dd_get (pm_to_daughter U entries) s))
     = min 3 (card {t. 0 < dd_count (pm_to_daughter U entries) s t})"
proof -
  let ?c = "dd_get (pm_to_daughter U entries) s"
  have "length ?c = card {t. 0 < counter_get ?c t}"
    using counters_distinct_get [OF counters_distinct_pm_to_daughter]
      counters_positive_get [OF counters_positive_pm_to_daughter]
    by (rule counter_keys_card)
  then show ?thesis by (simp add: most_common_length_eq dd_count_def)
qed

text \<open>
  C6. For one pair of reconstructed form and daughter reflex, the engine counts exactly
  the observations at the indices below the minimum of 3, the number of source segments
  and the number of daughter segments, each pairing the source segment with the daughter
  segment at the same index. In the table built from all entries, the count of a pair is
  the number of its observations, and the total of a source segment the number of
  observations with that source. A source segment is reported exactly when its total is
  at least 3, with its three targets of greatest count, or with all its targets when
  it has fewer than three: the list has as many items as the smaller of 3 and the
  number of targets observed with the segment, no target twice, each with its count, in
  descending order of count, and no target left out has a greater count than a
  reported one; among targets of equal count those first observed come first.
  Source tsa against daughter sa gives the
  observations (ts, s) and (a, a), for a character database that agrees with
  \<open>basic_ucd\<close> on ASCII.
\<close>

theorem positional_alignment:
  "align_entry U pe tbl = fold (\<lambda>(s, t). dd_inc s t) (alignment_observations U pe) tbl
   \<and> length (alignment_observations U pe) =
       min (min 3 (length (extract_phonemes U (proto_form pe))))
           (length (extract_phonemes U (mixtec_daughter pe)))
   \<and> (\<forall>i < length (alignment_observations U pe).
         alignment_observations U pe ! i =
           (extract_phonemes U (proto_form pe) ! i,
            extract_phonemes U (mixtec_daughter pe) ! i))
   \<and> dd_count (pm_to_daughter U entries) s t =
       count_list (concat (map (alignment_observations U) (proto_mixtec_entries entries))) (s, t)
   \<and> counter_total (dd_get (pm_to_daughter U entries) s) =
       length (filter (\<lambda>ob. fst ob = s)
                 (concat (map (alignment_observations U) (proto_mixtec_entries entries))))
   \<and> ((s, tops) \<in> set (alignment_report (pm_to_daughter U entries)) \<longleftrightarrow>
         3 \<le> counter_total (dd_get (pm_to_daughter U entries) s)
         \<and> tops = most_common 3 (dd_get (pm_to_daughter U entries) s))
   \<and> length (most_common 3 (dd_get (pm_to_daughter U entries) s)) \<le> 3
   \<and> (\<forall>(t, n) \<in> set (most_common 3 (dd_get (pm_to_daughter U entries) s)).
         n = dd_count (pm_to_daughter U entries) s t
         \<and> (\<forall>t'. t' \<in> fst ` set (most_common 3 (dd_get (pm_to_daughter U entries) s))
                  \<or> dd_count (pm_to_daughter U entries) s t' \<le> n))
   \<and> length (most_common 3 (dd_get (pm_to_daughter U entries) s))
       = min 3 (card {t. 0 < dd_count (pm_to_daughter U entries) s t})
   \<and> distinct (map fst (most_common 3 (dd_get (pm_to_daughter U entries) s)))
   \<and> sorted (map (\<lambda>(t, n). - int n) (most_common 3 (dd_get (pm_to_daughter U entries) s)))
   \<and> (\<exists>rest. filter (\<lambda>y. snd y = m) (dd_get (pm_to_daughter U entries) s)
         = filter (\<lambda>y. snd y = m) (most_common 3 (dd_get (pm_to_daughter U entries) s))
           @ rest)
   \<and> (agree_on ascii U basic_ucd \<longrightarrow>
        alignment_observations U
          \<lparr>pm_gloss = ustr ''water'', proto_form = Some (ustr ''tsa''), trique = Some [],
            mixtec_daughter = Some (ustr ''sa'')\<rparr>
         = [(ustr ''ts'', ustr ''s''), (ustr ''a'', ustr ''a'')])"
proof (intro conjI impI)
  show "align_entry U pe tbl = fold (\<lambda>(s, t). dd_inc s t) (alignment_observations U pe) tbl"
    by (rule align_entry_fold)
  show "length (alignment_observations U pe) =
       min (min 3 (length (extract_phonemes U (proto_form pe))))
           (length (extract_phonemes U (mixtec_daughter pe)))"
    by (rule alignment_observations_length)
  show "\<forall>i < length (alignment_observations U pe).
         alignment_observations U pe ! i =
           (extract_phonemes U (proto_form pe) ! i,
            extract_phonemes U (mixtec_daughter pe) ! i)"
    by (simp add: alignment_observations_nth)
  show "dd_count (pm_to_daughter U entries) s t =
       count_list (concat (map (alignment_observations U) (proto_mixtec_entries entries))) (s, t)"
    by (simp add: pm_to_daughter_def pm_to_daughter_loop_fold dd_count_fold_inc dd_count_Nil)
  show "counter_total (dd_get (pm_to_daughter U entries) s) =
       length (filter (\<lambda>ob. fst ob = s)
                 (concat (map (alignment_observations U) (proto_mixtec_entries entries))))"
  proof -
    have "counter_total (dd_get ([] :: (ustring, ustring) ddict) s) = 0"
      by (simp add: dd_get_def counter_total_def)
    then show ?thesis
      by (simp only: pm_to_daughter_def pm_to_daughter_loop_fold counter_total_fold_inc)
  qed
  show "(s, tops) \<in> set (alignment_report (pm_to_daughter U entries)) \<longleftrightarrow>
         3 \<le> counter_total (dd_get (pm_to_daughter U entries) s)
         \<and> tops = most_common 3 (dd_get (pm_to_daughter U entries) s)"
    by (rule alignment_report_mem)
  show "length (most_common 3 (dd_get (pm_to_daughter U entries) s)) \<le> 3"
    by (rule most_common_length)
  show "\<forall>(t, n) \<in> set (most_common 3 (dd_get (pm_to_daughter U entries) s)).
         n = dd_count (pm_to_daughter U entries) s t
         \<and> (\<forall>t'. t' \<in> fst ` set (most_common 3 (dd_get (pm_to_daughter U entries) s))
                  \<or> dd_count (pm_to_daughter U entries) s t' \<le> n)"
    using most_common_counts [OF counters_distinct_pm_to_daughter] by blast
  show "length (most_common 3 (dd_get (pm_to_daughter U entries) s))
       = min 3 (card {t. 0 < dd_count (pm_to_daughter U entries) s t})"
    by (rule most_common_targets)
  show "distinct (map fst (most_common 3 (dd_get (pm_to_daughter U entries) s)))"
    by (intro most_common_distinct counters_distinct_get counters_distinct_pm_to_daughter)
  show "sorted (map (\<lambda>(t, n). - int n) (most_common 3 (dd_get (pm_to_daughter U entries) s)))"
    by (rule most_common_sorted)
  show "\<exists>rest. filter (\<lambda>y. snd y = m) (dd_get (pm_to_daughter U entries) s)
         = filter (\<lambda>y. snd y = m) (most_common 3 (dd_get (pm_to_daughter U entries) s))
           @ rest"
    by (rule most_common_ties)
next
  assume ag: "agree_on ascii U basic_ucd"
  have sp: "32 \<in> ascii" by (simp add: ascii_def)
  have "set (ustr ''tsa'') \<subseteq> ascii" by (simp add: ascii_def ustr_def)
  with ag sp
  have "extract_phonemes U (Some (ustr ''tsa'')) = extract_phonemes basic_ucd (Some (ustr ''tsa''))"
    by (rule agree_extract_phonemes)
  also have "\<dots> = [ustr ''ts'', ustr ''a'']" by code_simp
  finally have pm: "extract_phonemes U (Some (ustr ''tsa'')) = [ustr ''ts'', ustr ''a'']" .
  have "set (ustr ''sa'') \<subseteq> ascii" by (simp add: ascii_def ustr_def)
  with ag sp
  have "extract_phonemes U (Some (ustr ''sa'')) = extract_phonemes basic_ucd (Some (ustr ''sa''))"
    by (rule agree_extract_phonemes)
  also have "\<dots> = [ustr ''s'', ustr ''a'']" by code_simp
  finally have da: "extract_phonemes U (Some (ustr ''sa'')) = [ustr ''s'', ustr ''a'']" .
  show "alignment_observations U
          \<lparr>pm_gloss = ustr ''water'', proto_form = Some (ustr ''tsa''), trique = Some [],
            mixtec_daughter = Some (ustr ''sa'')\<rparr>
         = [(ustr ''ts'', ustr ''s''), (ustr ''a'', ustr ''a'')]"
    by (simp add: alignment_observations_def pm da)
qed

theorem positional_alignment_witness:
  "1 < length (alignment_observations basic_ucd
        \<lparr>pm_gloss = ustr ''water'', proto_form = Some (ustr ''tsa''), trique = Some [],
          mixtec_daughter = Some (ustr ''sa'')\<rparr>)
   \<and> alignment_observations basic_ucd
        \<lparr>pm_gloss = ustr ''water'', proto_form = Some (ustr ''tsa''), trique = Some [],
          mixtec_daughter = Some (ustr ''sa'')\<rparr> ! 1
      = (extract_phonemes basic_ucd (Some (ustr ''tsa'')) ! 1,
         extract_phonemes basic_ucd (Some (ustr ''sa'')) ! 1)
   \<and> alignment_report (pm_to_daughter basic_ucd
        [\<lparr>gloss = ustr ''water'',
           forms = map_of [(ustr ''proto_mixtec'', Some (ustr ''*tsa'')),
                           (ustr ''Unnamed: 5'', Some (ustr ''sa''))]\<rparr>,
         \<lparr>gloss = ustr ''salt'',
           forms = map_of [(ustr ''proto_mixtec'', Some (ustr ''*tsa'')),
                           (ustr ''Unnamed: 5'', Some (ustr ''ta''))]\<rparr>,
         \<lparr>gloss = ustr ''rain'',
           forms = map_of [(ustr ''proto_mixtec'', Some (ustr ''*tsa'')),
                           (ustr ''Unnamed: 5'', Some (ustr ''sa''))]\<rparr>])
      = [(ustr ''a'', [(ustr ''a'', 3)]),
         (ustr ''ts'', [(ustr ''s'', 2), (ustr ''t'', 1)])]"
proof -
  let ?pe = "\<lparr>pm_gloss = ustr ''water'', proto_form = Some (ustr ''tsa''), trique = Some [],
          mixtec_daughter = Some (ustr ''sa'')\<rparr>"
  have r: "alignment_report (pm_to_daughter basic_ucd
        [\<lparr>gloss = ustr ''water'',
           forms = map_of [(ustr ''proto_mixtec'', Some (ustr ''*tsa'')),
                           (ustr ''Unnamed: 5'', Some (ustr ''sa''))]\<rparr>,
         \<lparr>gloss = ustr ''salt'',
           forms = map_of [(ustr ''proto_mixtec'', Some (ustr ''*tsa'')),
                           (ustr ''Unnamed: 5'', Some (ustr ''ta''))]\<rparr>,
         \<lparr>gloss = ustr ''rain'',
           forms = map_of [(ustr ''proto_mixtec'', Some (ustr ''*tsa'')),
                           (ustr ''Unnamed: 5'', Some (ustr ''sa''))]\<rparr>])
      = [(ustr ''a'', [(ustr ''a'', 3)]),
         (ustr ''ts'', [(ustr ''s'', 2), (ustr ''t'', 1)])]"
    by code_simp
  have h: "1 < length (alignment_observations basic_ucd ?pe)" by code_simp
  note all_observations =
    positional_alignment [where U = basic_ucd and pe = ?pe,
      THEN conjunct2, THEN conjunct2, THEN conjunct1]
  from all_observations
  have "\<forall>i < length (alignment_observations basic_ucd ?pe).
         alignment_observations basic_ucd ?pe ! i =
           (extract_phonemes basic_ucd (proto_form ?pe) ! i,
            extract_phonemes basic_ucd (mixtec_daughter ?pe) ! i)" .
  with h have "alignment_observations basic_ucd ?pe ! 1 =
           (extract_phonemes basic_ucd (proto_form ?pe) ! 1,
            extract_phonemes basic_ucd (mixtec_daughter ?pe) ! 1)"
    by blast
  then have "alignment_observations basic_ucd ?pe ! 1 =
           (extract_phonemes basic_ucd (Some (ustr ''tsa'')) ! 1,
            extract_phonemes basic_ucd (Some (ustr ''sa'')) ! 1)"
    by simp
  with h r show ?thesis by (intro conjI)
qed

section \<open>Properties of the cognate report\<close>

lemma report_loop_glosses:
  "set (map cand_gloss (report_loop items seen)) = set (map cand_gloss items) - seen"
  by (induction items arbitrary: seen) auto

lemma report_loop_subset: "set (report_loop items seen) \<subseteq> set items"
  by (induction items arbitrary: seen) auto

lemma report_loop_distinct: "distinct (map cand_gloss (report_loop items seen))"
proof (induction items arbitrary: seen)
  case Nil
  show ?case by simp
next
  case (Cons item items)
  have "cand_gloss item \<notin> set (map cand_gloss (report_loop items (insert (cand_gloss item) seen)))"
    unfolding report_loop_glosses by simp
  with Cons show ?case by simp
qed

lemma report_loop_length: "length (report_loop items seen) \<le> length items"
  by (induction items arbitrary: seen) (auto intro: le_SucI)

lemma report_loop_sorted:
  "sorted (map f items) \<Longrightarrow> sorted (map f (report_loop items seen))"
proof (induction items arbitrary: seen)
  case Nil
  show ?case by simp
next
  case (Cons item items)
  from Cons.prems have s: "sorted (map f items)" and le: "\<forall>y\<in>set items. f item \<le> f y"
    by simp_all
  have "\<forall>y\<in>set (report_loop items (insert (cand_gloss item) seen)). f item \<le> f y"
    using le report_loop_subset by blast
  with Cons.IH [OF s] show ?case by simp
qed

text \<open>The first item with the gloss of a reported item, in the list scanned, is that item.\<close>

lemma report_loop_first:
  "x \<in> set (report_loop items seen) \<Longrightarrow>
   find (\<lambda>y. cand_gloss y = cand_gloss x) items = Some x"
proof (induction items arbitrary: seen)
  case Nil
  then show ?case by simp
next
  case (Cons item items)
  show ?case
  proof (cases "cand_gloss item \<in> seen")
    case True
    with Cons.prems have x: "x \<in> set (report_loop items seen)" by simp
    then have "cand_gloss x \<in> set (map cand_gloss (report_loop items seen))" by simp
    then have "cand_gloss x \<notin> seen" unfolding report_loop_glosses by simp
    with True have "cand_gloss item \<noteq> cand_gloss x" by auto
    with Cons.IH [OF x] show ?thesis by simp
  next
    case False
    with Cons.prems
    consider "x = item" | "x \<in> set (report_loop items (insert (cand_gloss item) seen))"
      by auto
    then show ?thesis
    proof cases
      case 1
      then show ?thesis by simp
    next
      case 2
      then have "cand_gloss x \<in> set (map cand_gloss (report_loop items (insert (cand_gloss item) seen)))"
        by simp
      then have "cand_gloss x \<noteq> cand_gloss item" unfolding report_loop_glosses by simp
      with Cons.IH [OF 2] show ?thesis by simp
    qed
  qed
qed

lemma find_append_Some: "find P xs = Some x \<Longrightarrow> find P (xs @ ys) = Some x"
  by (induction xs) auto

text \<open>
  The report as the specification words it: de-duplicated by gloss first, then ranked
  by descending score and truncated.
\<close>

definition dedup_first_report :: "candidate list \<Rightarrow> candidate list" where
  "dedup_first_report cands =
     take 15 (sort_key (\<lambda>x. - similarity x) (report_loop cands {}))"

text \<open>
  C4, as the code has it. The candidates are ranked by descending score, the first 15
  are kept, and only then is the list de-duplicated by gloss, the highest-ranked
  candidate of a gloss standing for it. The report has at most 15 items, each a
  candidate, no gloss twice, in descending order of score, and its glosses are exactly
  the glosses of the 15 highest-ranked candidates. A gloss whose candidates all rank
  lower is not reported, whatever fills the first 15 ranks.
\<close>

theorem cognate_report_ranked_then_deduplicated:
  "cognate_report cands = report_loop (take 15 (sort_key (\<lambda>x. - similarity x) cands)) {}
   \<and> length (cognate_report cands) \<le> 15
   \<and> set (cognate_report cands) \<subseteq> set cands
   \<and> distinct (map cand_gloss (cognate_report cands))
   \<and> sorted (map (\<lambda>x. - similarity x) (cognate_report cands))
   \<and> set (map cand_gloss (cognate_report cands))
       = set (map cand_gloss (take 15 (sort_key (\<lambda>x. - similarity x) cands)))
   \<and> (\<forall>x \<in> set (cognate_report cands).
         find (\<lambda>y. cand_gloss y = cand_gloss x) (sort_key (\<lambda>x. - similarity x) cands) = Some x)"
proof (intro conjI)
  let ?ranked = "sort_key (\<lambda>x. - similarity x) cands"
  show "cognate_report cands = report_loop (take 15 ?ranked) {}"
    by (simp add: cognate_report_def)
  have "length (cognate_report cands) \<le> length (take 15 ?ranked)"
    unfolding cognate_report_def by (rule report_loop_length)
  then show "length (cognate_report cands) \<le> 15" by simp
  have "set (cognate_report cands) \<subseteq> set (take 15 ?ranked)"
    unfolding cognate_report_def by (rule report_loop_subset)
  also have "\<dots> \<subseteq> set ?ranked" by (rule set_take_subset)
  finally show "set (cognate_report cands) \<subseteq> set cands" by simp
  show "distinct (map cand_gloss (cognate_report cands))"
    unfolding cognate_report_def by (rule report_loop_distinct)
  have "sorted (map (\<lambda>x. - similarity x) (take 15 ?ranked))"
    by (simp add: take_map [symmetric] sorted_wrt_take)
  then show "sorted (map (\<lambda>x. - similarity x) (cognate_report cands))"
    unfolding cognate_report_def by (rule report_loop_sorted)
  show "set (map cand_gloss (cognate_report cands)) = set (map cand_gloss (take 15 ?ranked))"
    unfolding cognate_report_def report_loop_glosses by simp
  show "\<forall>x \<in> set (cognate_report cands).
         find (\<lambda>y. cand_gloss y = cand_gloss x) ?ranked = Some x"
  proof
    fix x
    assume "x \<in> set (cognate_report cands)"
    then have "find (\<lambda>y. cand_gloss y = cand_gloss x) (take 15 ?ranked) = Some x"
      unfolding cognate_report_def by (rule report_loop_first)
    then show "find (\<lambda>y. cand_gloss y = cand_gloss x) ?ranked = Some x"
      using find_append_Some [of _ "take 15 ?ranked" x "drop 15 ?ranked"] by simp
  qed
qed

text \<open>
  Six entries with six glosses. The first five have the same form in Popoluca and in the
  three Otomanguean languages, so each gives three candidates of score 1; the sixth has
  one candidate, of score 1/2.
\<close>

definition full_entry :: "string \<Rightarrow> entry" where
  "full_entry g =
     \<lparr>gloss = ustr g,
        forms = map_of [(ustr ''popoluca'', Some (ustr ''a'')),
                        (ustr ''zapotec_isthmus'', Some (ustr ''a'')),
                        (ustr ''otomian'', Some (ustr ''a'')),
                        (ustr ''proto_mixtec'', Some (ustr ''a''))]\<rparr>"

definition crowded_entries :: "entry list" where
  "crowded_entries =
     [full_entry ''one'', full_entry ''two'', full_entry ''three'', full_entry ''four'',
      full_entry ''five'',
      \<lparr>gloss = ustr ''six'',
        forms = map_of [(ustr ''popoluca'', Some (ustr ''ab'')),
                        (ustr ''zapotec_isthmus'', Some (ustr ''a''))]\<rparr>]"

text \<open>The glosses and scores of a list of candidates.\<close>

definition glosses_scores :: "candidate list \<Rightarrow> (ustring \<times> rat) list" where
  "glosses_scores cands = map (\<lambda>x. (cand_gloss x, similarity x)) cands"

text \<open>
  The claim as stated fails on these entries: the sixth gloss is a candidate and is in
  the report that de-duplicates first, but the report of the code has only the five
  glosses whose fifteen candidates fill the first 15 ranks.
\<close>

theorem cognate_report_drops_gloss_counterexample:
  "map_sum id (glosses_scores \<circ> cognate_report) (potential_cognates basic_ucd crowded_entries)
     = Inr [(ustr ''one'', 1), (ustr ''two'', 1), (ustr ''three'', 1), (ustr ''four'', 1),
            (ustr ''five'', 1)]
   \<and> map_sum id (glosses_scores \<circ> dedup_first_report)
        (potential_cognates basic_ucd crowded_entries)
     = Inr [(ustr ''one'', 1), (ustr ''two'', 1), (ustr ''three'', 1), (ustr ''four'', 1),
            (ustr ''five'', 1), (ustr ''six'', 1 / 2)]"
  by code_simp

theorem cognate_report_ranked_then_deduplicated_witness:
  "cognate_report
     [\<lparr>cand_gloss = ustr ''one'', cand_popoluca = Some (ustr ''ab''),
        cand_lang = ustr ''otomian'', cand_form = Some (ustr ''a''), similarity = 1 / 2\<rparr>,
      \<lparr>cand_gloss = ustr ''one'', cand_popoluca = Some (ustr ''ab''),
        cand_lang = ustr ''proto_mixtec'', cand_form = Some (ustr ''ab''), similarity = 1\<rparr>]
   = [\<lparr>cand_gloss = ustr ''one'', cand_popoluca = Some (ustr ''ab''),
        cand_lang = ustr ''proto_mixtec'', cand_form = Some (ustr ''ab''), similarity = 1\<rparr>]
   \<and> find (\<lambda>y. cand_gloss y = ustr ''one'')
        (sort_key (\<lambda>x. - similarity x)
           [\<lparr>cand_gloss = ustr ''one'', cand_popoluca = Some (ustr ''ab''),
              cand_lang = ustr ''otomian'', cand_form = Some (ustr ''a''), similarity = 1 / 2\<rparr>,
            \<lparr>cand_gloss = ustr ''one'', cand_popoluca = Some (ustr ''ab''),
              cand_lang = ustr ''proto_mixtec'', cand_form = Some (ustr ''ab''),
              similarity = 1\<rparr>])
     = Some \<lparr>cand_gloss = ustr ''one'', cand_popoluca = Some (ustr ''ab''),
        cand_lang = ustr ''proto_mixtec'', cand_form = Some (ustr ''ab''), similarity = 1\<rparr>"
proof -
  let ?lo = "\<lparr>cand_gloss = ustr ''one'', cand_popoluca = Some (ustr ''ab''),
        cand_lang = ustr ''otomian'', cand_form = Some (ustr ''a''), similarity = 1 / 2\<rparr>"
  let ?hi = "\<lparr>cand_gloss = ustr ''one'', cand_popoluca = Some (ustr ''ab''),
        cand_lang = ustr ''proto_mixtec'', cand_form = Some (ustr ''ab''), similarity = 1\<rparr>"
  have r: "cognate_report [?lo, ?hi] = [?hi]"
    by (simp add: cognate_report_def)
  then have m: "?hi \<in> set (cognate_report [?lo, ?hi])" by simp
  note first_of_gloss =
    cognate_report_ranked_then_deduplicated [where cands = "[?lo, ?hi]",
      THEN conjunct2, THEN conjunct2, THEN conjunct2, THEN conjunct2, THEN conjunct2,
      THEN conjunct2]
  from first_of_gloss m
  have "find (\<lambda>y. cand_gloss y = cand_gloss ?hi) (sort_key (\<lambda>x. - similarity x) [?lo, ?hi])
          = Some ?hi"
    by (rule bspec)
  then have "find (\<lambda>y. cand_gloss y = ustr ''one'') (sort_key (\<lambda>x. - similarity x) [?lo, ?hi])
          = Some ?hi"
    by (simp only: candidate.simps)
  with r show ?thesis by (intro conjI)
qed

end
